theory Spec2Isabelle
  imports Complex_Main "HOL-Library.AList"
begin

section \<open>Scene model of the playground (src/main.js)\<close>

text \<open>
  The embedding follows the class \<open>Playground\<close> of \<open>src/main.js\<close>. JavaScript numbers
  are modelled as \<open>real\<close> (coordinates, material parameters) and as \<open>int\<close> (the id
  counters and the history index). Objects of the physics engine (bodies and constraints)
  live in an explicit store addressed by handles; \<open>bodyMap\<close> and \<open>linkMap\<close> are
  JavaScript \<open>Map\<close>s and are modelled as association lists in insertion order.
  Render styling of bodies and DOM widgets are outside the model.
\<close>

type_synonym vec = "real \<times> real"

datatype bodyType = Dynamic | Static | Sensor

datatype shape =
    Circle real
  | Rectangle real real
  | Polygon int real

datatype shapeType = TCircle | TRectangle | TPolygon

datatype renderMode = Solid | Outline | Gradient

record physics =
  restitution :: real
  friction :: real
  frictionAir :: real
  frictionStatic :: real
  density :: real

record physics_patch =
  p_restitution :: "real option"
  p_friction :: "real option"
  p_frictionAir :: "real option"
  p_frictionStatic :: "real option"
  p_density :: "real option"

record visual =
  fill :: string
  stroke :: string
  strokeWidth :: real
  opacity :: real
  renderMode :: renderMode

record visual_patch =
  v_fill :: "string option"
  v_stroke :: "string option"
  v_strokeWidth :: "real option"
  v_opacity :: "real option"
  v_renderMode :: "renderMode option"

record scene_object =
  oid :: string
  label :: string
  position :: vec
  angle :: real
  bodyType :: bodyType
  locked :: bool
  shape :: shape
  physics :: physics
  visual :: visual

record link_options =
  stiffness :: real
  damping :: real
  rest_length :: real

record spring_link =
  lid :: string
  link_a :: string
  link_b :: string
  options :: link_options

record snapshot =
  s_objects :: "scene_object list"
  s_links :: "spring_link list"
  s_nextId :: int
  s_nextLinkId :: int

text \<open>A parsed scene document: every key of the JSON object may be absent.\<close>

record scene_doc =
  d_objects :: "scene_object list option"
  d_links :: "spring_link list option"
  d_nextId :: "int option"
  d_nextLinkId :: "int option"

subsection \<open>Engine objects\<close>

type_synonym handle = nat

record body =
  b_position :: vec
  b_velocity :: vec
  b_angle :: real
  b_angularVelocity :: real
  b_geometry :: shape
  b_material :: physics
  b_isStatic :: bool
  b_isSensor :: bool
  plugin_modelId :: string
  plugin_locked :: bool

record constraint =
  c_bodyA :: handle
  c_bodyB :: handle
  c_options :: link_options

datatype hint =
    NoHint
  | ToolHint string
  | ChooseAnother
  | PickDifferent
  | ConstraintAdded
  | CleanSlate

record playground =
  objects :: "scene_object list"
  links :: "spring_link list"
  bodyMap :: "(string \<times> handle) list"
  linkMap :: "(string \<times> handle) list"
  heap_bodies :: "handle \<rightharpoonup> body"
  heap_constraints :: "handle \<rightharpoonup> constraint"
  world_bodies :: "handle list"
  world_constraints :: "handle list"
  next_handle :: handle
  selectedIds :: "string list"
  constraintAnchor :: "string option"
  history :: "snapshot list"
  historyIndex :: int
  nextId :: int
  nextLinkId :: int
  hint :: hint

definition DEFAULT_PHYSICS :: physics where
  "DEFAULT_PHYSICS = \<lparr>restitution = 0.2, friction = 0.1, frictionAir = 0.01,
     frictionStatic = 0.5, density = 0.001\<rparr>"

definition DEFAULT_VISUAL :: visual where
  "DEFAULT_VISUAL = \<lparr>fill = ''#4f46e5'', stroke = ''#111827'', strokeWidth = 2,
     opacity = 1, renderMode = Solid\<rparr>"

subsection \<open>Numbers in template strings\<close>

definition digit_char :: "nat \<Rightarrow> char" where
  "digit_char d = ''0123456789'' ! d"

function dec_nat :: "nat \<Rightarrow> string" where
  "dec_nat n = (if n < 10 then [digit_char n] else dec_nat (n div 10) @ [digit_char (n mod 10)])"
  by pat_completeness auto
termination
  by (relation "measure (\<lambda>n. n)") auto

declare dec_nat.simps [simp del]

definition dec_int :: "int \<Rightarrow> string" where
  "dec_int i = (if i < 0 then CHR ''-'' # dec_nat (nat (- i)) else dec_nat (nat i))"

definition obj_name :: "int \<Rightarrow> string" where
  "obj_name n = ''obj-'' @ dec_int n"

definition link_name :: "int \<Rightarrow> string" where
  "link_name n = ''link-'' @ dec_int n"

subsection \<open>Looking up and updating models\<close>

text \<open>\<open>this.objects.find((o) => o.id === id)\<close> returns a reference to the first model
  with that id; an assignment through it changes that element of the array.\<close>

definition find_model :: "string \<Rightarrow> scene_object list \<Rightarrow> scene_object option" where
  "find_model i objs = find (\<lambda>m. oid m = i) objs"

fun assign_model :: "string \<Rightarrow> (scene_object \<Rightarrow> scene_object) \<Rightarrow> scene_object list \<Rightarrow> scene_object list" where
  "assign_model i f [] = []"
| "assign_model i f (m # ms) = (if oid m = i then f m # ms else m # assign_model i f ms)"

subsection \<open>Materializing bodies\<close>

definition body_geometry :: "shape \<Rightarrow> shape" where
  "body_geometry sh = (case sh of
      Circle r \<Rightarrow> Circle r
    | Rectangle w h \<Rightarrow> Rectangle w h
    | Polygon sides r \<Rightarrow> Polygon (max 3 (if sides = 0 then 5 else sides)) r)"

definition buildBody :: "scene_object \<Rightarrow> body" where
  "buildBody model = \<lparr>
     b_position = position model,
     b_velocity = (0, 0),
     b_angle = angle model,
     b_angularVelocity = 0,
     b_geometry = body_geometry (shape model),
     b_material = physics model,
     b_isStatic = (bodyType model = Static),
     b_isSensor = (bodyType model = Sensor),
     plugin_modelId = oid model,
     plugin_locked = locked model\<rparr>"

text \<open>Every engine object gets a fresh handle when it is created.\<close>

definition new_body :: "body \<Rightarrow> playground \<Rightarrow> handle \<times> playground" where
  "new_body b s = (next_handle s,
     s\<lparr>heap_bodies := (heap_bodies s)(next_handle s \<mapsto> b), next_handle := Suc (next_handle s)\<rparr>)"

definition new_constraint :: "constraint \<Rightarrow> playground \<Rightarrow> handle \<times> playground" where
  "new_constraint c s = (next_handle s,
     s\<lparr>heap_constraints := (heap_constraints s)(next_handle s \<mapsto> c), next_handle := Suc (next_handle s)\<rparr>)"

definition world_add_body :: "handle \<Rightarrow> playground \<Rightarrow> playground" where
  "world_add_body h s = s\<lparr>world_bodies := world_bodies s @ [h]\<rparr>"

definition world_remove_body :: "handle \<Rightarrow> playground \<Rightarrow> playground" where
  "world_remove_body h s = s\<lparr>world_bodies := remove1 h (world_bodies s)\<rparr>"

definition world_add_constraint :: "handle \<Rightarrow> playground \<Rightarrow> playground" where
  "world_add_constraint h s = s\<lparr>world_constraints := world_constraints s @ [h]\<rparr>"

definition world_remove_constraint :: "handle \<Rightarrow> playground \<Rightarrow> playground" where
  "world_remove_constraint h s = s\<lparr>world_constraints := remove1 h (world_constraints s)\<rparr>"

text \<open>The engine's setters on a body, by their contract: each writes the field it names.\<close>

definition Body_setPosition :: "handle \<Rightarrow> vec \<Rightarrow> playground \<Rightarrow> playground" where
  "Body_setPosition h p s = (case heap_bodies s h of None \<Rightarrow> s
     | Some b \<Rightarrow> s\<lparr>heap_bodies := (heap_bodies s)(h \<mapsto> b\<lparr>b_position := p\<rparr>)\<rparr>)"

definition Body_setVelocity :: "handle \<Rightarrow> vec \<Rightarrow> playground \<Rightarrow> playground" where
  "Body_setVelocity h v s = (case heap_bodies s h of None \<Rightarrow> s
     | Some b \<Rightarrow> s\<lparr>heap_bodies := (heap_bodies s)(h \<mapsto> b\<lparr>b_velocity := v\<rparr>)\<rparr>)"

definition Body_setAngularVelocity :: "handle \<Rightarrow> real \<Rightarrow> playground \<Rightarrow> playground" where
  "Body_setAngularVelocity h w s = (case heap_bodies s h of None \<Rightarrow> s
     | Some b \<Rightarrow> s\<lparr>heap_bodies := (heap_bodies s)(h \<mapsto> b\<lparr>b_angularVelocity := w\<rparr>)\<rparr>)"

definition Body_setAngle :: "handle \<Rightarrow> real \<Rightarrow> playground \<Rightarrow> playground" where
  "Body_setAngle h a s = (case heap_bodies s h of None \<Rightarrow> s
     | Some b \<Rightarrow> s\<lparr>heap_bodies := (heap_bodies s)(h \<mapsto> b\<lparr>b_angle := a\<rparr>)\<rparr>)"

subsection \<open>Spring links\<close>

definition hypot :: "real \<Rightarrow> real \<Rightarrow> real" where
  "hypot dx dy = sqrt (dx * dx + dy * dy)"

definition createLink :: "string \<Rightarrow> string \<Rightarrow> playground \<Rightarrow> playground" where
  "createLink aId bId s =
    (case (map_of (bodyMap s) aId, map_of (bodyMap s) bId) of
       (Some hA, Some hB) \<Rightarrow>
         (case (heap_bodies s hA, heap_bodies s hB) of
            (Some bodyA, Some bodyB) \<Rightarrow>
              (let len = min 220 (hypot (fst (b_position bodyB) - fst (b_position bodyA))
                                        (snd (b_position bodyB) - snd (b_position bodyA)));
                   opts = \<lparr>stiffness = 0.04, damping = 0.02, rest_length = len\<rparr>;
                   (c, s1) = new_constraint \<lparr>c_bodyA = hA, c_bodyB = hB, c_options = opts\<rparr> s;
                   i = link_name (nextLinkId s1);
                   s2 = s1\<lparr>nextLinkId := nextLinkId s1 + 1\<rparr>;
                   l = \<lparr>lid = i, link_a = aId, link_b = bId, options = opts\<rparr>;
                   s3 = s2\<lparr>links := links s2 @ [l]\<rparr>;
                   s4 = s3\<lparr>linkMap := AList.update i c (linkMap s3)\<rparr>
               in world_add_constraint c s4)
          | _ \<Rightarrow> s)
     | _ \<Rightarrow> s)"

definition attachLink :: "spring_link \<Rightarrow> playground \<Rightarrow> playground" where
  "attachLink l s =
    (case (map_of (bodyMap s) (link_a l), map_of (bodyMap s) (link_b l)) of
       (Some hA, Some hB) \<Rightarrow>
         (let (c, s1) = new_constraint \<lparr>c_bodyA = hA, c_bodyB = hB, c_options = options l\<rparr> s;
              s2 = s1\<lparr>linkMap := AList.update (lid l) c (linkMap s1)\<rparr>
          in world_add_constraint c s2)
     | _ \<Rightarrow> s)"

definition refreshLink :: "string \<Rightarrow> spring_link \<Rightarrow> playground \<Rightarrow> playground" where
  "refreshLink modelId l s =
    (if link_a l = modelId \<or> link_b l = modelId then
       attachLink l (case map_of (linkMap s) (lid l) of
                       Some existing \<Rightarrow> world_remove_constraint existing s
                     | None \<Rightarrow> s)
     else s)"

definition refreshLinksFor :: "string \<Rightarrow> playground \<Rightarrow> playground" where
  "refreshLinksFor modelId s = fold (refreshLink modelId) (links s) s"

text \<open>One iteration of the loop of \<open>removeLinksFor\<close>; \<open>remaining\<close> is the local array.\<close>

fun removeLink_step :: "string \<Rightarrow> spring_link \<Rightarrow> spring_link list \<times> playground \<Rightarrow> spring_link list \<times> playground" where
  "removeLink_step modelId l (remaining, s) =
    (if link_a l = modelId \<or> link_b l = modelId then
       (let s1 = (case map_of (linkMap s) (lid l) of
                    Some existing \<Rightarrow> world_remove_constraint existing s
                  | None \<Rightarrow> s)
        in (remaining, s1\<lparr>linkMap := AList.delete (lid l) (linkMap s1)\<rparr>))
     else (remaining @ [l], s))"

declare removeLink_step.simps [simp del]

definition removeLinksFor :: "string \<Rightarrow> playground \<Rightarrow> playground" where
  "removeLinksFor modelId s =
    (let (remaining, s1) = fold (removeLink_step modelId) (links s) ([], s)
     in s1\<lparr>links := remaining\<rparr>)"


subsection \<open>Inferring id counters\<close>

text \<open>\<open>str.split('-')\<close>: the segments between the separators, at least one.\<close>

fun split_on :: "char \<Rightarrow> string \<Rightarrow> string list" where
  "split_on c [] = [[]]"
| "split_on c (x # xs) =
     (if x = c then [] # split_on c xs
      else (case split_on c xs of w # ws \<Rightarrow> (x # w) # ws | [] \<Rightarrow> [[x]]))"

text \<open>The white space and line terminators that \<open>parseInt\<close> skips. A character here is
  a code unit below 256; of those, the language counts these seven: tab, line feed, vertical
  tab, form feed, carriage return, space and the no-break space U+00A0.\<close>

definition is_js_space :: "char \<Rightarrow> bool" where
  "is_js_space c = (c \<in> set [CHR 0x09, CHR 0x0A, CHR 0x0B, CHR 0x0C, CHR 0x0D, CHR 0x20, CHR 0xA0])"

definition is_digit :: "char \<Rightarrow> bool" where
  "is_digit c = (c \<in> set ''0123456789'')"

definition digit_val :: "char \<Rightarrow> int" where
  "digit_val c = int (of_char c) - 48"

definition digits_val :: "string \<Rightarrow> int" where
  "digits_val ds = foldl (\<lambda>acc c. 10 * acc + digit_val c) 0 ds"

text \<open>\<open>parseInt(str, 10)\<close>: leading white space is skipped, a sign is read, then the
  longest run of decimal digits; \<open>None\<close> stands for \<open>NaN\<close>. The result here is the integer
  that the digits denote; the number \<open>parseInt\<close> returns is the double nearest to it
  (\<open>to_double\<close> below).\<close>

definition parseInt10 :: "string \<Rightarrow> int option" where
  "parseInt10 str =
    (let t = dropWhile is_js_space str;
         (neg, r) = (case t of
                       c # r \<Rightarrow> if c = CHR ''-'' then (True, r)
                                else if c = CHR ''+'' then (False, r) else (False, t)
                     | [] \<Rightarrow> (False, t));
         ds = takeWhile is_digit r
     in if ds = [] then None else Some ((if neg then - 1 else 1) * digits_val ds))"

text \<open>\<open>parseInt((id || '').split('-')[1], 10)\<close>; a missing second segment is
  \<open>undefined\<close>, which \<open>parseInt\<close> reads as the string "undefined".\<close>

definition id_number :: "string \<Rightarrow> int option" where
  "id_number i = (case split_on CHR ''-'' i of
      _ # seg # _ \<Rightarrow> parseInt10 seg
    | _ \<Rightarrow> parseInt10 ''undefined'')"

text \<open>
  Numbers are IEEE doubles. An integer of magnitude up to \<open>2^53\<close> is a double; a larger one
  is rounded to 53 significant bits: to the nearest double, and to the one with the even
  significand when two are equally near. The exponent range is not modelled: a value beyond
  the largest double (a run of more than 308 digits) is \<open>Infinity\<close> in the engine.
\<close>

function bit_length :: "nat \<Rightarrow> nat" where
  "bit_length n = (if n = 0 then 0 else Suc (bit_length (n div 2)))"
  by pat_completeness auto
termination
  by (relation "measure (\<lambda>n. n)") auto

declare bit_length.simps [simp del]

definition to_double :: "int \<Rightarrow> int" where
  "to_double i =
    (if \<bar>i\<bar> \<le> 2 ^ 53 then i
     else (let n = nat \<bar>i\<bar>;
               k = bit_length n - 53;
               q = n div 2 ^ k;
               r = n mod 2 ^ k;
               q' = (if 2 ^ k < 2 * r \<or> (2 * r = 2 ^ k \<and> odd q) then q + 1 else q)
           in sgn i * int (q' * 2 ^ k)))"

text \<open>\<open>(Math.max(-1, ...ids) || 0) + 1\<close> over the numbers that \<open>parseInt\<close> returned and that
  are not \<open>NaN\<close>; the addition is one of doubles.\<close>

definition inferNext :: "string list \<Rightarrow> int" where
  "inferNext names =
    (let ids = map to_double (List.map_filter id_number names);
         m = fold max ids (- 1)
     in to_double ((if m = 0 then 0 else m) + 1))"

definition inferNextId :: "scene_object list \<Rightarrow> int" where
  "inferNextId objs = inferNext (map oid objs)"

definition inferNextLinkId :: "spring_link list \<Rightarrow> int" where
  "inferNextLinkId ls = inferNext (map lid ls)"

subsection \<open>History\<close>

definition sync_model :: "playground \<Rightarrow> scene_object \<Rightarrow> scene_object" where
  "sync_model s model =
    (case map_of (bodyMap s) (oid model) of
       None \<Rightarrow> model
     | Some h \<Rightarrow> (case heap_bodies s h of
                    None \<Rightarrow> model
                  | Some b \<Rightarrow> model\<lparr>position := b_position b, angle := b_angle b\<rparr>))"

definition syncModelTransforms :: "playground \<Rightarrow> playground" where
  "syncModelTransforms s = s\<lparr>objects := map (sync_model s) (objects s)\<rparr>"

definition take_snapshot :: "playground \<Rightarrow> snapshot" where
  "take_snapshot s = \<lparr>s_objects = objects s, s_links = links s,
     s_nextId = nextId s, s_nextLinkId = nextLinkId s\<rparr>"

text \<open>\<open>xs.slice(0, n)\<close>; a negative end counts from the end of the array.\<close>

definition slice0 :: "'a list \<Rightarrow> int \<Rightarrow> 'a list" where
  "slice0 xs n = (if n < 0 then take (nat (int (length xs) + n)) xs else take (nat n) xs)"

definition commitHistory :: "playground \<Rightarrow> playground" where
  "commitHistory s =
    (let s1 = syncModelTransforms s;
         h = slice0 (history s1) (historyIndex s1 + 1) @ [take_snapshot s1]
     in s1\<lparr>history := h, historyIndex := int (length h) - 1\<rparr>)"

definition materialize :: "scene_object \<Rightarrow> playground \<Rightarrow> playground" where
  "materialize model s =
    (let (h, s1) = new_body (buildBody model) s;
         s2 = world_add_body h s1
     in s2\<lparr>bodyMap := AList.update (oid model) h (bodyMap s2)\<rparr>)"

definition applySnapshot :: "snapshot \<Rightarrow> playground \<Rightarrow> playground" where
  "applySnapshot snap s =
    (let s1 = s\<lparr>objects := s_objects snap, links := s_links snap, nextId := s_nextId snap,
                nextLinkId := (if s_nextLinkId snap \<noteq> 0 then s_nextLinkId snap
                               else inferNextLinkId (s_links snap)),
                selectedIds := []\<rparr>;
         s2 = fold world_remove_body (map snd (bodyMap s1)) s1;
         s3 = fold world_remove_constraint (map snd (linkMap s2)) s2;
         s4 = s3\<lparr>bodyMap := [], linkMap := []\<rparr>;
         s5 = fold materialize (objects s4) s4
     in fold attachLink (links s5) s5)"

text \<open>\<open>this.history[i]\<close> is \<open>undefined\<close> outside the array; \<open>applySnapshot\<close> then throws
  on its first line, after the index has been changed.\<close>

definition restore_at :: "int \<Rightarrow> playground \<Rightarrow> playground" where
  "restore_at i s =
    (if 0 \<le> i \<and> i < int (length (history s))
     then applySnapshot (history s ! nat i) (s\<lparr>historyIndex := i\<rparr>)
     else s\<lparr>historyIndex := i\<rparr>)"

definition undo :: "playground \<Rightarrow> playground" where
  "undo s = (if historyIndex s \<le> 0 then s else restore_at (historyIndex s - 1) s)"

definition redo :: "playground \<Rightarrow> playground" where
  "redo s = (if historyIndex s \<ge> int (length (history s)) - 1 then s
             else restore_at (historyIndex s + 1) s)"

subsection \<open>Persistence\<close>

definition showSave :: "playground \<Rightarrow> scene_doc" where
  "showSave s = \<lparr>d_objects = Some (objects s), d_links = Some (links s),
     d_nextId = Some (nextId s), d_nextLinkId = Some (nextLinkId s)\<rparr>"

datatype error = InvalidScene

definition error_message :: "error \<Rightarrow> string" where
  "error_message e = (case e of InvalidScene \<Rightarrow> ''Invalid scene'')"

definition or_else :: "int option \<Rightarrow> int \<Rightarrow> int" where
  "or_else v d = (case v of None \<Rightarrow> d | Some n \<Rightarrow> if n = 0 then d else n)"

text \<open>The body of the \<open>try\<close> block of \<open>loadScene\<close>: \<open>Inl\<close> is the thrown error.\<close>

definition load_document :: "scene_doc \<Rightarrow> playground \<Rightarrow> error + playground" where
  "load_document data s =
    (case d_objects data of
       None \<Rightarrow> Inl InvalidScene
     | Some objs \<Rightarrow>
        (let nid = or_else (d_nextId data) (inferNextId objs);
             nlid = or_else (d_nextLinkId data) 1;
             ls = (case d_links data of None \<Rightarrow> [] | Some l \<Rightarrow> l)
         in Inr (commitHistory (applySnapshot
              \<lparr>s_objects = objs, s_links = ls, s_nextId = nid, s_nextLinkId = nlid\<rparr> s))))"

text \<open>\<open>loadScene\<close> returns the state and the text of the alert shown, if any.\<close>

definition loadScene :: "scene_doc \<Rightarrow> playground \<Rightarrow> playground \<times> string option" where
  "loadScene data s =
    (case load_document data s of
       Inl err \<Rightarrow> (s, Some (''Failed to load scene: '' @ error_message err))
     | Inr s' \<Rightarrow> (s', None))"


subsection \<open>Selection\<close>

definition handleSelection :: "string \<Rightarrow> bool \<Rightarrow> playground \<Rightarrow> playground" where
  "handleSelection i shift s =
    (if shift then
       (if i \<in> set (selectedIds s) then s else s\<lparr>selectedIds := selectedIds s @ [i]\<rparr>)
     else s\<lparr>selectedIds := [i]\<rparr>)"

definition clearSelection :: "playground \<Rightarrow> playground" where
  "clearSelection s = s\<lparr>selectedIds := [], constraintAnchor := None\<rparr>"

subsection \<open>Rebuilding a body\<close>

definition rebuildBody :: "scene_object \<Rightarrow> playground \<Rightarrow> playground" where
  "rebuildBody model s =
    (case map_of (bodyMap s) (oid model) of
       None \<Rightarrow> s
     | Some existing \<Rightarrow>
        (case heap_bodies s existing of
           None \<Rightarrow> s
         | Some old \<Rightarrow>
            (let st_position = b_position old;
                 st_velocity = b_velocity old;
                 st_angularVelocity = b_angularVelocity old;
                 st_angle = b_angle old;
                 s1 = world_remove_body existing s;
                 (h, s2) = new_body (buildBody model) s1;
                 s3 = Body_setPosition h st_position s2;
                 s4 = Body_setVelocity h st_velocity s3;
                 s5 = Body_setAngularVelocity h st_angularVelocity s4;
                 s6 = Body_setAngle h st_angle s5;
                 s7 = world_add_body h s6;
                 s8 = s7\<lparr>bodyMap := AList.update (oid model) h (bodyMap s7)\<rparr>
             in refreshLinksFor (oid model) s8)))"

subsection \<open>Editing the selection\<close>

definition merge_physics :: "physics \<Rightarrow> physics_patch \<Rightarrow> physics" where
  "merge_physics p patch = \<lparr>
     restitution = (case p_restitution patch of None \<Rightarrow> restitution p | Some v \<Rightarrow> v),
     friction = (case p_friction patch of None \<Rightarrow> friction p | Some v \<Rightarrow> v),
     frictionAir = (case p_frictionAir patch of None \<Rightarrow> frictionAir p | Some v \<Rightarrow> v),
     frictionStatic = (case p_frictionStatic patch of None \<Rightarrow> frictionStatic p | Some v \<Rightarrow> v),
     density = (case p_density patch of None \<Rightarrow> density p | Some v \<Rightarrow> v)\<rparr>"

definition merge_visual :: "visual \<Rightarrow> visual_patch \<Rightarrow> visual" where
  "merge_visual p patch = \<lparr>
     fill = (case v_fill patch of None \<Rightarrow> fill p | Some v \<Rightarrow> v),
     stroke = (case v_stroke patch of None \<Rightarrow> stroke p | Some v \<Rightarrow> v),
     strokeWidth = (case v_strokeWidth patch of None \<Rightarrow> strokeWidth p | Some v \<Rightarrow> v),
     opacity = (case v_opacity patch of None \<Rightarrow> opacity p | Some v \<Rightarrow> v),
     renderMode = (case v_renderMode patch of None \<Rightarrow> renderMode p | Some v \<Rightarrow> v)\<rparr>"

text \<open>The body of the \<open>forEach\<close> of an edit: the first model with the id is changed in
  place and, where the source does so, its body is rebuilt from the changed model.\<close>

definition edit_model :: "(scene_object \<Rightarrow> scene_object) \<Rightarrow> bool \<Rightarrow> string \<Rightarrow> playground \<Rightarrow> playground" where
  "edit_model f rebuild i s =
    (case find_model i (objects s) of
       None \<Rightarrow> s
     | Some model \<Rightarrow>
        (let s1 = s\<lparr>objects := assign_model i f (objects s)\<rparr>
         in if rebuild then rebuildBody (f model) s1 else s1))"

definition updatePhysics :: "physics_patch \<Rightarrow> playground \<Rightarrow> playground" where
  "updatePhysics patch s =
    (if selectedIds s = [] then s
     else commitHistory
       (fold (edit_model (\<lambda>m. m\<lparr>physics := merge_physics (physics m) patch\<rparr>) True)
          (selectedIds s) s))"

definition updateVisual :: "visual_patch \<Rightarrow> playground \<Rightarrow> playground" where
  "updateVisual patch s =
    (if selectedIds s = [] then s
     else commitHistory
       (fold (edit_model (\<lambda>m. m\<lparr>visual := merge_visual (visual m) patch\<rparr>) False)
          (selectedIds s) s))"

definition updateSelection :: "bodyType \<Rightarrow> playground \<Rightarrow> playground" where
  "updateSelection bt s =
    (if selectedIds s = [] then s
     else commitHistory
       (fold (edit_model (\<lambda>m. m\<lparr>bodyType := bt\<rparr>) True) (selectedIds s) s))"

text \<open>The value of \<open>shape.type\<close>, which is also the default label of a model.\<close>

definition type_name :: "shapeType \<Rightarrow> string" where
  "type_name ty = (case ty of TCircle \<Rightarrow> ''circle'' | TRectangle \<Rightarrow> ''rectangle''
     | TPolygon \<Rightarrow> ''polygon'')"

definition shape_type :: "shape \<Rightarrow> shapeType" where
  "shape_type sh = (case sh of Circle _ \<Rightarrow> TCircle | Rectangle _ _ \<Rightarrow> TRectangle
     | Polygon _ _ \<Rightarrow> TPolygon)"

definition shapeDefaults :: "shapeType \<Rightarrow> vec \<Rightarrow> real \<Rightarrow> shape" where
  "shapeDefaults ty extent radius = (case ty of
      TCircle \<Rightarrow> Circle radius
    | TPolygon \<Rightarrow> Polygon 5 radius
    | TRectangle \<Rightarrow> Rectangle (fst extent) (snd extent))"

text \<open>\<open>changeShape\<close> reads \<open>body.bounds\<close>, which the engine computes; \<open>bounds\<close> gives
  the corners (min, max) of the bounding box of each body.\<close>

definition changeShape_step :: "(handle \<Rightarrow> vec \<times> vec) \<Rightarrow> shapeType \<Rightarrow> string \<Rightarrow> playground \<Rightarrow> playground" where
  "changeShape_step bounds ty i s =
    (case find_model i (objects s) of
       None \<Rightarrow> s
     | Some model \<Rightarrow>
        (case map_of (bodyMap s) i of
           None \<Rightarrow> s
         | Some h \<Rightarrow>
            (case heap_bodies s h of
               None \<Rightarrow> s
             | Some b \<Rightarrow>
                (let (bmin, bmax) = bounds h;
                     extent = (fst bmax - fst bmin, snd bmax - snd bmin);
                     radius = max (fst extent) (snd extent) / 2;
                     f = (\<lambda>m. m\<lparr>shape := shapeDefaults ty extent radius,
                                 position := b_position b, label := type_name ty\<rparr>);
                     s1 = s\<lparr>objects := assign_model i f (objects s)\<rparr>
                 in rebuildBody (f model) s1))))"

definition changeShape :: "(handle \<Rightarrow> vec \<times> vec) \<Rightarrow> shapeType \<Rightarrow> playground \<Rightarrow> playground" where
  "changeShape bounds ty s =
    (if selectedIds s = [] then s
     else commitHistory (fold (changeShape_step bounds ty) (selectedIds s) s))"

definition set_sides :: "int \<Rightarrow> scene_object \<Rightarrow> scene_object" where
  "set_sides n m = (case shape m of Polygon _ r \<Rightarrow> m\<lparr>shape := Polygon n r\<rparr> | _ \<Rightarrow> m)"

definition is_polygon :: "scene_object \<Rightarrow> bool" where
  "is_polygon m = (case shape m of Polygon _ _ \<Rightarrow> True | _ \<Rightarrow> False)"

definition changePolygonSides_step :: "int \<Rightarrow> string \<Rightarrow> playground \<Rightarrow> playground" where
  "changePolygonSides_step n i s =
    (case find_model i (objects s) of
       None \<Rightarrow> s
     | Some model \<Rightarrow> if is_polygon model then edit_model (set_sides n) True i s else s)"

definition changePolygonSides :: "int \<Rightarrow> playground \<Rightarrow> playground" where
  "changePolygonSides n s =
    (if selectedIds s = [] then s
     else commitHistory (fold (changePolygonSides_step n) (selectedIds s) s))"

definition toggleLock_step :: "bool \<Rightarrow> string \<Rightarrow> playground \<Rightarrow> playground" where
  "toggleLock_step lock i s =
    (case find_model i (objects s) of
       None \<Rightarrow> s
     | Some model \<Rightarrow>
        (let s1 = s\<lparr>objects := assign_model i (\<lambda>m. m\<lparr>locked := lock\<rparr>) (objects s)\<rparr>
         in case map_of (bodyMap s1) i of
              None \<Rightarrow> s1
            | Some h \<Rightarrow> (case heap_bodies s1 h of
                           None \<Rightarrow> s1
                         | Some b \<Rightarrow> s1\<lparr>heap_bodies := (heap_bodies s1)(h \<mapsto> b\<lparr>plugin_locked := lock\<rparr>)\<rparr>)))"

definition toggleLock :: "bool \<Rightarrow> playground \<Rightarrow> playground" where
  "toggleLock lock s = commitHistory (fold (toggleLock_step lock) (selectedIds s) s)"

subsection \<open>Creating, duplicating and deleting objects\<close>

definition createModel :: "vec \<Rightarrow> shape \<Rightarrow> bodyType \<Rightarrow> playground \<Rightarrow> scene_object \<times> playground" where
  "createModel pos sh bt s =
    (\<lparr>oid = obj_name (nextId s),
      label = type_name (shape_type sh),
      position = pos, angle = 0, bodyType = bt, locked = False, shape = sh,
      physics = DEFAULT_PHYSICS, visual = DEFAULT_VISUAL\<rparr>,
     s\<lparr>nextId := nextId s + 1\<rparr>)"

definition addModelToWorld :: "scene_object \<Rightarrow> playground \<Rightarrow> playground" where
  "addModelToWorld model s = materialize model (s\<lparr>objects := objects s @ [model]\<rparr>)"

text \<open>The end of a draw gesture (\<open>handleCanvasUp\<close>), after the shape has been measured.\<close>

definition handleCanvasUp :: "vec \<Rightarrow> shape \<Rightarrow> bodyType \<Rightarrow> playground \<Rightarrow> playground" where
  "handleCanvasUp center sh bt s =
    (let (model, s1) = createModel center sh bt s;
         s2 = addModelToWorld model s1;
         s3 = commitHistory s2
     in handleSelection (oid model) False s3)"

fun duplicate_step :: "string \<Rightarrow> string list \<times> playground \<Rightarrow> string list \<times> playground" where
  "duplicate_step i (newIds, s) =
    (case find_model i (objects s) of
       None \<Rightarrow> (newIds, s)
     | Some model \<Rightarrow>
        (let clone = model\<lparr>oid := obj_name (nextId s),
                            position := (fst (position model) + 20, snd (position model) - 20)\<rparr>;
             s1 = s\<lparr>nextId := nextId s + 1\<rparr>
         in (newIds @ [oid clone], addModelToWorld clone s1)))"

declare duplicate_step.simps [simp del]

definition duplicateSelection :: "playground \<Rightarrow> playground" where
  "duplicateSelection s =
    (if selectedIds s = [] then s
     else (let (newIds, s1) = fold duplicate_step (selectedIds s) ([], s);
               s2 = commitHistory s1
           in case newIds of [] \<Rightarrow> s2 | i # _ \<Rightarrow> handleSelection i False s2))"

definition delete_step :: "string \<Rightarrow> playground \<Rightarrow> playground" where
  "delete_step i s =
    (let s1 = (case map_of (bodyMap s) i of
                 Some h \<Rightarrow> world_remove_body h s
               | None \<Rightarrow> s);
         s2 = s1\<lparr>bodyMap := AList.delete i (bodyMap s1)\<rparr>;
         s3 = s2\<lparr>objects := filter (\<lambda>m. oid m \<noteq> i) (objects s2)\<rparr>
     in removeLinksFor i s3)"

definition deleteSelection :: "playground \<Rightarrow> playground" where
  "deleteSelection s =
    (if selectedIds s = [] then s
     else commitHistory (clearSelection (fold delete_step (selectedIds s) s)))"

definition resetWorld :: "playground \<Rightarrow> playground" where
  "resetWorld s =
    (let s1 = clearSelection s;
         s2 = s1\<lparr>objects := [], links := [], nextId := 1, nextLinkId := 1\<rparr>;
         s3 = fold world_remove_body (map snd (bodyMap s2)) s2;
         s4 = fold world_remove_constraint (map snd (linkMap s3)) s3;
         s5 = s4\<lparr>bodyMap := [], linkMap := []\<rparr>;
         s6 = commitHistory s5
     in s6\<lparr>hint := CleanSlate\<rparr>)"

subsection \<open>The linking gesture\<close>

text \<open>\<open>handleConstraintPoint(body)\<close>: \<open>clicked\<close> is \<open>body?.plugin?.modelId\<close>, and the anchor
  is kept as the model id of the anchored body. The empty string is falsy.\<close>

definition handleConstraintPoint :: "string option \<Rightarrow> playground \<Rightarrow> playground" where
  "handleConstraintPoint clicked s =
    (case clicked of
       None \<Rightarrow> s
     | Some to \<Rightarrow>
        if to = [] then s
        else (case constraintAnchor s of
                None \<Rightarrow> s\<lparr>constraintAnchor := Some to, hint := ChooseAnother\<rparr>
              | Some from \<Rightarrow>
                 if from = to then s\<lparr>hint := PickDifferent, constraintAnchor := None\<rparr>
                 else (let s1 = createLink from to s;
                           s2 = s1\<lparr>constraintAnchor := None\<rparr>;
                           s3 = commitHistory s2
                       in s3\<lparr>hint := ConstraintAdded\<rparr>)))"

definition selectTool :: "string \<Rightarrow> playground \<Rightarrow> playground" where
  "selectTool tool s = s\<lparr>constraintAnchor := None, hint := ToolHint tool\<rparr>"

subsection \<open>The engine's step\<close>

record kinematics =
  k_position :: vec
  k_velocity :: vec
  k_angle :: real
  k_angularVelocity :: real

definition move_body :: "kinematics \<Rightarrow> body \<Rightarrow> body" where
  "move_body k b = b\<lparr>b_position := k_position k, b_velocity := k_velocity k,
     b_angle := k_angle k, b_angularVelocity := k_angularVelocity k\<rparr>"

text \<open>One tick: the engine moves the bodies of the world (\<open>motion\<close> stands for the solver),
  then the \<open>afterUpdate\<close> handler copies the poses into the models.\<close>

definition tick :: "(handle \<Rightarrow> kinematics) \<Rightarrow> playground \<Rightarrow> playground" where
  "tick motion s =
    syncModelTransforms (s\<lparr>heap_bodies := (\<lambda>h.
       if h \<in> set (world_bodies s) then map_option (move_body (motion h)) (heap_bodies s h)
       else heap_bodies s h)\<rparr>)"

subsection \<open>The editor as a state machine\<close>

definition blank :: playground where
  "blank = \<lparr>objects = [], links = [], bodyMap = [], linkMap = [],
     heap_bodies = Map.empty, heap_constraints = Map.empty,
     world_bodies = [], world_constraints = [], next_handle = 0,
     selectedIds = [], constraintAnchor = None, history = [], historyIndex = - 1,
     nextId = 1, nextLinkId = 1, hint = NoHint\<rparr>"

text \<open>The state after the constructor: it commits the empty scene.\<close>

definition initial :: playground where
  "initial = (commitHistory blank)\<lparr>hint := ToolHint ''select''\<rparr>"

datatype op =
    CanvasUp vec shape bodyType
  | Select string bool
  | ClearSelection
  | SelectTool string
  | UpdatePhysics physics_patch
  | UpdateVisual visual_patch
  | UpdateSelection bodyType
  | ChangeShape "handle \<Rightarrow> vec \<times> vec" shapeType
  | ChangePolygonSides int
  | ToggleLock bool
  | ConstraintPoint "string option"
  | Duplicate
  | Delete
  | Reset
  | Undo
  | Redo
  | LoadScene scene_doc
  | Tick "handle \<Rightarrow> kinematics"

fun apply_op :: "op \<Rightarrow> playground \<Rightarrow> playground" where
  "apply_op (CanvasUp c sh bt) s = handleCanvasUp c sh bt s"
| "apply_op (Select i shift) s = handleSelection i shift s"
| "apply_op ClearSelection s = clearSelection s"
| "apply_op (SelectTool tool) s = selectTool tool s"
| "apply_op (UpdatePhysics patch) s = updatePhysics patch s"
| "apply_op (UpdateVisual patch) s = updateVisual patch s"
| "apply_op (UpdateSelection bt) s = updateSelection bt s"
| "apply_op (ChangeShape bounds ty) s = changeShape bounds ty s"
| "apply_op (ChangePolygonSides n) s = changePolygonSides n s"
| "apply_op (ToggleLock lock) s = toggleLock lock s"
| "apply_op (ConstraintPoint clicked) s = handleConstraintPoint clicked s"
| "apply_op Duplicate s = duplicateSelection s"
| "apply_op Delete s = deleteSelection s"
| "apply_op Reset s = resetWorld s"
| "apply_op Undo s = undo s"
| "apply_op Redo s = redo s"
| "apply_op (LoadScene data) s = fst (loadScene data s)"
| "apply_op (Tick motion) s = tick motion s"

definition run :: "op list \<Rightarrow> playground \<Rightarrow> playground" where
  "run ops s = fold apply_op ops s"

subsection \<open>Example scenes\<close>

definition touches :: "string \<Rightarrow> spring_link \<Rightarrow> bool" where
  "touches i l = (link_a l = i \<or> link_b l = i)"

definition circleA :: op where
  "circleA = CanvasUp (0, 0) (Circle 20) Dynamic"

definition rectB :: op where
  "rectB = CanvasUp (3, 4) (Rectangle 40 30) Dynamic"

definition scene_two :: playground where
  "scene_two = run [circleA, rectB] initial"

definition drift :: "handle \<Rightarrow> kinematics" where
  "drift h = \<lparr>k_position = (10, 20), k_velocity = (1, 2), k_angle = 1 / 2,
     k_angularVelocity = 1 / 4\<rparr>"

definition scene_moving :: playground where
  "scene_moving = tick drift scene_two"

definition scene_linked :: playground where
  "scene_linked = run [ConstraintPoint (Some ''obj-1''), ConstraintPoint (Some ''obj-2''),
     Select ''obj-1'' False] scene_two"

definition squareA :: scene_object where
  "squareA = \<lparr>oid = ''obj-1'', label = ''rectangle'', position = (10, 20), angle = 1 / 2,
     bodyType = Dynamic, locked = False, shape = Rectangle 40 40,
     physics = DEFAULT_PHYSICS, visual = DEFAULT_VISUAL\<rparr>"

definition no_objects_doc :: scene_doc where
  "no_objects_doc = \<lparr>d_objects = None, d_links = Some [], d_nextId = Some 4, d_nextLinkId = None\<rparr>"

definition neg_link_doc :: scene_doc where
  "neg_link_doc = \<lparr>
     d_objects = Some [
       \<lparr>oid = ''obj-1'', label = ''circle'', position = (0, 0), angle = 0, bodyType = Dynamic,
         locked = False, shape = Circle 20, physics = DEFAULT_PHYSICS, visual = DEFAULT_VISUAL\<rparr>,
       \<lparr>oid = ''obj-2'', label = ''circle'', position = (3, 4), angle = 0, bodyType = Dynamic,
         locked = False, shape = Circle 20, physics = DEFAULT_PHYSICS, visual = DEFAULT_VISUAL\<rparr>],
     d_links = Some [\<lparr>lid = ''link-7'', link_a = ''obj-1'', link_b = ''obj-2'',
        options = \<lparr>stiffness = 0.04, damping = 0.02, rest_length = 5\<rparr>\<rparr>],
     d_nextId = Some 3,
     d_nextLinkId = Some (- 1)\<rparr>"

definition scene_zero_counter :: playground where
  "scene_zero_counter = run [LoadScene neg_link_doc, ConstraintPoint (Some ''obj-1''),
     ConstraintPoint (Some ''obj-2'')] initial"

text \<open>Three objects in a chain of two links, the first object selected.\<close>

definition discC :: op where
  "discC = CanvasUp (6, 8) (Circle 20) Dynamic"

definition scene_chain :: playground where
  "scene_chain = run [circleA, rectB, discC,
     ConstraintPoint (Some ''obj-1''), ConstraintPoint (Some ''obj-2''),
     ConstraintPoint (Some ''obj-2''), ConstraintPoint (Some ''obj-3''),
     Select ''obj-1'' False] initial"

text \<open>A document with a link \<open>link-1\<close> and no \<open>nextLinkId\<close>; after it has been loaded, the
  next link made by the gesture is named \<open>link-1\<close> as well.\<close>

definition relink_doc :: scene_doc where
  "relink_doc = \<lparr>
     d_objects = Some [
       \<lparr>oid = ''obj-1'', label = ''circle'', position = (0, 0), angle = 0, bodyType = Dynamic,
         locked = False, shape = Circle 20, physics = DEFAULT_PHYSICS, visual = DEFAULT_VISUAL\<rparr>,
       \<lparr>oid = ''obj-2'', label = ''circle'', position = (3, 4), angle = 0, bodyType = Dynamic,
         locked = False, shape = Circle 20, physics = DEFAULT_PHYSICS, visual = DEFAULT_VISUAL\<rparr>,
       \<lparr>oid = ''obj-3'', label = ''circle'', position = (6, 8), angle = 0, bodyType = Dynamic,
         locked = False, shape = Circle 20, physics = DEFAULT_PHYSICS, visual = DEFAULT_VISUAL\<rparr>],
     d_links = Some [\<lparr>lid = ''link-1'', link_a = ''obj-1'', link_b = ''obj-2'',
        options = \<lparr>stiffness = 0.04, damping = 0.02, rest_length = 5\<rparr>\<rparr>],
     d_nextId = Some 4,
     d_nextLinkId = None\<rparr>"

definition scene_relinked :: playground where
  "scene_relinked = run [LoadScene relink_doc, ConstraintPoint (Some ''obj-2''),
     ConstraintPoint (Some ''obj-3''), Select ''obj-1'' False] initial"

text \<open>The first object is anchored for a link.\<close>

definition scene_anchored :: playground where
  "scene_anchored = run [circleA, rectB, ConstraintPoint (Some ''obj-1'')] initial"

text \<open>The second object is anchored for a link and then taken back by an undo; the anchor
  stays. The next click of the gesture asks for a link from it.\<close>

definition scene_stale_anchor :: playground where
  "scene_stale_anchor = run [circleA, rectB, ConstraintPoint (Some ''obj-2''), Undo] initial"

definition scene_failed_link :: playground where
  "scene_failed_link = run [circleA, rectB, ConstraintPoint (Some ''obj-2''), Undo,
     ConstraintPoint (Some ''obj-1'')] initial"

subsection \<open>Projections used in the proofs\<close>

text \<open>The part of the state that the engine-side helpers never touch.\<close>

definition model_part :: "playground \<Rightarrow>
    scene_object list \<times> spring_link list \<times> string list \<times> string option \<times>
    snapshot list \<times> int \<times> int \<times> int \<times> hint" where
  "model_part s = (objects s, links s, selectedIds s, constraintAnchor s,
     history s, historyIndex s, nextId s, nextLinkId s, hint s)"

definition restored :: "snapshot \<Rightarrow> snapshot" where
  "restored snap = snap\<lparr>s_nextLinkId :=
     (if s_nextLinkId snap \<noteq> 0 then s_nextLinkId snap else inferNextLinkId (s_links snap))\<rparr>"

subsection \<open>Counter inference as the specification words it\<close>



definition plain_object :: "string \<Rightarrow> scene_object" where
  "plain_object i = \<lparr>oid = i, label = ''circle'', position = (0, 0), angle = 0, bodyType = Dynamic,
     locked = False, shape = Circle 20, physics = DEFAULT_PHYSICS, visual = DEFAULT_VISUAL\<rparr>"

definition odd_ids_doc :: scene_doc where
  "odd_ids_doc = \<lparr>d_objects = Some [plain_object ''box-2-9'', plain_object ''crate7''],
     d_links = Some [\<lparr>lid = ''link-4'', link_a = ''box-2-9'', link_b = ''crate7'',
        options = \<lparr>stiffness = 0.04, damping = 0.02, rest_length = 0\<rparr>\<rparr>],
     d_nextId = None, d_nextLinkId = None\<rparr>"





text \<open>The body recorded for a model id, if any.\<close>

definition body_of :: "playground \<Rightarrow> string \<Rightarrow> body option" where
  "body_of s i = (case map_of (bodyMap s) i of None \<Rightarrow> None | Some h \<Rightarrow> heap_bodies s h)"

definition handles_fresh :: "playground \<Rightarrow> bool" where
  "handles_fresh s = list_all (\<lambda>(k, h). h < next_handle s) (bodyMap s)"

text \<open>What loading makes of an object list: every model takes the pose of the last model
  with its id, since that is the body \<open>bodyMap\<close> ends up with.\<close>

definition settled :: "scene_object list \<Rightarrow> scene_object list" where
  "settled objs = map (\<lambda>m. case find (\<lambda>m'. oid m' = oid m) (rev objs) of
       None \<Rightarrow> m
     | Some m' \<Rightarrow> m\<lparr>position := position m', angle := angle m'\<rparr>) objs"

subsection \<open>Ids, counters and invariants over the history\<close>

text \<open>The ids of a scene: object ids, link records and the two counters.\<close>

type_synonym ids = "string list \<times> spring_link list \<times> int \<times> int"

definition snap_ids :: "snapshot \<Rightarrow> ids" where
  "snap_ids snap = (map oid (s_objects snap), s_links snap, s_nextId snap, s_nextLinkId snap)"

definition state_ids :: "playground \<Rightarrow> ids" where
  "state_ids s = (map oid (objects s), links s, nextId s, nextLinkId s)"

text \<open>The ids a document installs when it is loaded (it must have objects).\<close>

definition doc_ids :: "scene_doc \<Rightarrow> ids" where
  "doc_ids data =
    (case d_objects data of
       None \<Rightarrow> ([], [], 0, 0)
     | Some objs \<Rightarrow>
        (map oid objs,
         (case d_links data of None \<Rightarrow> [] | Some l \<Rightarrow> l),
         or_else (d_nextId data) (inferNextId objs),
         or_else (d_nextLinkId data) 1))"

text \<open>A property of ids holds throughout a state when it holds of the current scene and
  of every snapshot of the history, and every id with a body is the id of a model.\<close>

definition holds_throughout :: "(ids \<Rightarrow> bool) \<Rightarrow> playground \<Rightarrow> bool" where
  "holds_throughout P s =
    (P (state_ids s) \<and> list_all (\<lambda>snap. P (snap_ids snap)) (history s)
     \<and> list_all (\<lambda>(k, h). k \<in> set (map oid (objects s))) (bodyMap s))"

definition links_closed :: "ids \<Rightarrow> bool" where
  "links_closed v = (case v of (os, ls, n, nl) \<Rightarrow>
     list_all (\<lambda>l. link_a l \<in> set os \<and> link_b l \<in> set os) ls)"

definition ids_numbered :: "ids \<Rightarrow> bool" where
  "ids_numbered v = (case v of (os, ls, n, nl) \<Rightarrow>
     1 \<le> n \<and> 1 \<le> nl
     \<and> list_all (\<lambda>i. i \<in> set (map obj_name [1..n - 1])) os
     \<and> list_all (\<lambda>l. lid l \<in> set (map link_name [1..nl - 1])) ls)"

definition is_load :: "op \<Rightarrow> bool" where
  "is_load x = (case x of LoadScene _ \<Rightarrow> True | _ \<Rightarrow> False)"

definition loads_only :: "(ids \<Rightarrow> bool) \<Rightarrow> op \<Rightarrow> bool" where
  "loads_only P x = (case x of LoadScene data \<Rightarrow> d_objects data = None \<or> P (doc_ids data) | _ \<Rightarrow> True)"

definition keeps_counters :: "op \<Rightarrow> bool" where
  "keeps_counters x = (case x of Reset \<Rightarrow> False | Undo \<Rightarrow> False | Redo \<Rightarrow> False
     | LoadScene _ \<Rightarrow> False | _ \<Rightarrow> True)"

text \<open>The closure conditions under which a property of ids survives every operation.\<close>

definition stable :: "(ids \<Rightarrow> bool) \<Rightarrow> bool" where
  "stable P =
    (P ([], [], 1, 1)
     \<and> (\<forall>os ls n nl. P (os, ls, n, nl) \<longrightarrow> P (os @ [obj_name n], ls, n + 1, nl))
     \<and> (\<forall>os ls n nl a b opts. P (os, ls, n, nl) \<and> a \<in> set os \<and> b \<in> set os \<longrightarrow>
           P (os, ls @ [\<lparr>lid = link_name nl, link_a = a, link_b = b, options = opts\<rparr>], n, nl + 1))
     \<and> (\<forall>os ls n nl X. P (os, ls, n, nl) \<longrightarrow>
           P (filter (\<lambda>i. i \<noteq> X) os, filter (\<lambda>l. \<not> touches X l) ls, n, nl))
     \<and> (\<forall>os ls n nl. P (os, ls, n, nl) \<longrightarrow>
           P (os, ls, n, if nl \<noteq> 0 then nl else inferNext (map lid ls))))"

text \<open>The part of a state that \<open>holds_throughout\<close> looks at.\<close>

definition ids_view :: "playground \<Rightarrow> ids \<times> snapshot list \<times> string set" where
  "ids_view s = (state_ids s, history s, fst ` set (bodyMap s))"

definition dangling_doc :: scene_doc where
  "dangling_doc = \<lparr>d_objects = Some [plain_object ''obj-1''],
     d_links = Some [\<lparr>lid = ''link-1'', link_a = ''obj-1'', link_b = ''obj-2'',
        options = \<lparr>stiffness = 0.04, damping = 0.02, rest_length = 0\<rparr>\<rparr>],
     d_nextId = Some 2, d_nextLinkId = Some 2\<rparr>"

definition closed_doc :: scene_doc where
  "closed_doc = \<lparr>d_objects = Some [plain_object ''a'', plain_object ''b''],
     d_links = Some [\<lparr>lid = ''spring'', link_a = ''a'', link_b = ''b'',
        options = \<lparr>stiffness = 0.04, damping = 0.02, rest_length = 0\<rparr>\<rparr>],
     d_nextId = None, d_nextLinkId = None\<rparr>"

text \<open>Link ids are numbered below the counter and pairwise distinct.\<close>

definition links_apart :: "ids \<Rightarrow> bool" where
  "links_apart v = (case v of (os, ls, n, nl) \<Rightarrow> ids_numbered v \<and> distinct (map lid ls))"

subsection \<open>Consistency of the engine side\<close>

text \<open>Every handle of \<open>bodyMap\<close> is an allocated body, every model has a body, and the
  constraints of the world are allocated and listed once.\<close>

definition handles_live :: "playground \<Rightarrow> bool" where
  "handles_live s =
     list_all (\<lambda>(k, h). h < next_handle s \<and> heap_bodies s h \<noteq> None) (bodyMap s)"

definition constraints_listed :: "playground \<Rightarrow> bool" where
  "constraints_listed s =
    (distinct (world_constraints s) \<and> list_all (\<lambda>c. c < next_handle s) (world_constraints s))"

definition engine_sound :: "playground \<Rightarrow> bool" where
  "engine_sound s =
    (handles_live s
     \<and> list_all (\<lambda>m. map_of (bodyMap s) (oid m) \<noteq> None) (objects s)
     \<and> constraints_listed s)"

text \<open>The part of a state that \<open>engine_sound\<close> looks at.\<close>

definition engine_view :: "playground \<Rightarrow>
    (string \<times> handle) list \<times> handle set \<times> handle \<times> handle list \<times> string list" where
  "engine_view s = (bodyMap s, dom (heap_bodies s), next_handle s, world_constraints s,
     map oid (objects s))"

text \<open>The constraints recorded in \<open>linkMap\<close> are allocated, and no two ids record the same.\<close>

definition link_handles :: "playground \<Rightarrow> bool" where
  "link_handles s =
    (distinct (map snd (linkMap s)) \<and> list_all (\<lambda>(k, c). c < next_handle s) (linkMap s))"


section \<open>Auxiliary facts\<close>

lemmas world_defs = new_body_def new_constraint_def world_add_body_def world_remove_body_def
  world_add_constraint_def world_remove_constraint_def Body_setPosition_def Body_setVelocity_def
  Body_setAngularVelocity_def Body_setAngle_def

lemma fold_keeps: "(\<And>x s. g (f x s) = g s) \<Longrightarrow> g (fold f xs s) = g s"
  by (induction xs arbitrary: s) auto

lemmas eval_defs = world_defs run_def initial_def blank_def commitHistory_def syncModelTransforms_def
  take_snapshot_def slice0_def handleCanvasUp_def createModel_def addModelToWorld_def materialize_def
  handleSelection_def sync_model_def obj_name_def link_name_def dec_int_def dec_nat.simps digit_char_def
  buildBody_def body_geometry_def type_name_def shape_type_def Let_def

lemma commitHistory_keeps:
  "links (commitHistory s) = links s" "bodyMap (commitHistory s) = bodyMap s"
  "linkMap (commitHistory s) = linkMap s" "heap_bodies (commitHistory s) = heap_bodies s"
  "heap_constraints (commitHistory s) = heap_constraints s"
  "world_bodies (commitHistory s) = world_bodies s"
  "world_constraints (commitHistory s) = world_constraints s"
  "next_handle (commitHistory s) = next_handle s"
  "selectedIds (commitHistory s) = selectedIds s"
  "constraintAnchor (commitHistory s) = constraintAnchor s"
  "nextId (commitHistory s) = nextId s" "nextLinkId (commitHistory s) = nextLinkId s"
  "hint (commitHistory s) = hint s"
  "map oid (objects (commitHistory s)) = map oid (objects s)"
  by (simp_all add: commitHistory_def syncModelTransforms_def Let_def sync_model_def
      split: option.splits)

lemma attachLink_keeps:
  "bodyMap (attachLink l s) = bodyMap s" "heap_bodies (attachLink l s) = heap_bodies s"
  "world_bodies (attachLink l s) = world_bodies s" "objects (attachLink l s) = objects s"
  "links (attachLink l s) = links s"
  by (auto simp: attachLink_def world_defs Let_def split: option.splits)

lemma refreshLink_keeps:
  "bodyMap (refreshLink i l s) = bodyMap s" "heap_bodies (refreshLink i l s) = heap_bodies s"
  "world_bodies (refreshLink i l s) = world_bodies s" "objects (refreshLink i l s) = objects s"
  "links (refreshLink i l s) = links s"
  by (auto simp: refreshLink_def attachLink_keeps world_defs split: option.splits)

lemma refreshLinksFor_keeps:
  "bodyMap (refreshLinksFor i s) = bodyMap s" "heap_bodies (refreshLinksFor i s) = heap_bodies s"
  "world_bodies (refreshLinksFor i s) = world_bodies s" "objects (refreshLinksFor i s) = objects s"
  "links (refreshLinksFor i s) = links s"
  unfolding refreshLinksFor_def by (rule fold_keeps, simp add: refreshLink_keeps)+

lemma removeLink_step_touch:
  "touches i l \<Longrightarrow> removeLink_step i l (rem, s) =
     (rem, s\<lparr>linkMap := AList.delete (lid l) (linkMap s),
             world_constraints := (case map_of (linkMap s) (lid l) of
                Some c \<Rightarrow> remove1 c (world_constraints s) | None \<Rightarrow> world_constraints s)\<rparr>)"
  by (simp add: removeLink_step.simps touches_def world_defs Let_def split: option.splits)

lemma removeLink_step_other:
  "\<not> touches i l \<Longrightarrow> removeLink_step i l (rem, s) = (rem @ [l], s)"
  by (simp add: removeLink_step.simps touches_def)

lemma removeLink_fold_shape:
  "\<exists>lm wc. fold (removeLink_step i) ls (rem, s) =
     (rem @ filter (\<lambda>l. \<not> touches i l) ls, s\<lparr>linkMap := lm, world_constraints := wc\<rparr>)"
proof (induction ls arbitrary: rem s)
  case Nil
  have "s = s\<lparr>linkMap := linkMap s, world_constraints := world_constraints s\<rparr>" by simp
  then show ?case by (metis fold_simps(1) filter.simps(1) append_Nil2)
next
  case (Cons l ls)
  show ?case
  proof (cases "touches i l")
    case True
    from Cons.IH [of rem "s\<lparr>linkMap := AList.delete (lid l) (linkMap s),
             world_constraints := (case map_of (linkMap s) (lid l) of
                Some c \<Rightarrow> remove1 c (world_constraints s) | None \<Rightarrow> world_constraints s)\<rparr>"]
    show ?thesis using True by (simp add: removeLink_step_touch)
  next
    case False
    from Cons.IH [of "rem @ [l]" s] show ?thesis using False
      by (simp add: removeLink_step_other)
  qed
qed

lemma removed_handles_step:
  assumes "M K = Some c"
  shows "W - {c} - {c'. \<exists>l'\<in>L. T l' \<and> (M(K := None)) (f l') = Some c'}
       = W - {c'. M K = Some c' \<or> (\<exists>l'\<in>L. T l' \<and> M (f l') = Some c')}"
  using assms by (auto split: if_splits) (metis option.inject)

lemma removeLink_fold_maps:
  "fold (removeLink_step i) ls (rem, s) = (rem', s') \<Longrightarrow>
     (\<forall>k. map_of (linkMap s') k =
         (if k \<in> lid ` {l \<in> set ls. touches i l} then None else map_of (linkMap s) k))
   \<and> (distinct (world_constraints s) \<longrightarrow> distinct (world_constraints s')
        \<and> set (world_constraints s') = set (world_constraints s)
             - {c. \<exists>l \<in> set ls. touches i l \<and> map_of (linkMap s) (lid l) = Some c})"
proof (induction ls arbitrary: rem s)
  case Nil
  then show ?case by simp
next
  case (Cons l ls)
  show ?case
  proof (cases "touches i l")
    case False
    with Cons.prems have "fold (removeLink_step i) ls (rem @ [l], s) = (rem', s')"
      by (simp add: removeLink_step_other)
    from Cons.IH [OF this] False show ?thesis by auto
  next
    case True
    define s2 where "s2 = s\<lparr>linkMap := AList.delete (lid l) (linkMap s),
             world_constraints := (case map_of (linkMap s) (lid l) of
                Some c \<Rightarrow> remove1 c (world_constraints s) | None \<Rightarrow> world_constraints s)\<rparr>"
    from Cons.prems True have f: "fold (removeLink_step i) ls (rem, s2) = (rem', s')"
      by (simp add: removeLink_step_touch s2_def)
    note ih = Cons.IH [OF f]
    have lm: "map_of (linkMap s2) = (map_of (linkMap s))(lid l := None)"
      by (simp add: s2_def delete_conv')
    have wc: "world_constraints s2 = (case map_of (linkMap s) (lid l) of
        Some c \<Rightarrow> remove1 c (world_constraints s) | None \<Rightarrow> world_constraints s)"
      by (simp add: s2_def)
    have 3: "map_of (linkMap s') k =
         (if k \<in> lid ` {l' \<in> set (l # ls). touches i l'} then None else map_of (linkMap s) k)" for k
      using ih True by (auto simp: lm)
    have 4: "distinct (world_constraints s') \<and> set (world_constraints s') = set (world_constraints s)
             - {c. \<exists>l' \<in> set (l # ls). touches i l' \<and> map_of (linkMap s) (lid l') = Some c}"
      if d: "distinct (world_constraints s)"
    proof -
      have d2: "distinct (world_constraints s2)"
        using d by (simp add: wc split: option.splits)
      from ih d2 have a: "distinct (world_constraints s')" and
        b: "set (world_constraints s') = set (world_constraints s2)
             - {c. \<exists>l' \<in> set ls. touches i l' \<and> map_of (linkMap s2) (lid l') = Some c}"
        by auto
      show ?thesis
      proof (cases "map_of (linkMap s) (lid l)")
        case None
        then have "(map_of (linkMap s))(lid l := None) = map_of (linkMap s)"
          by (simp add: fun_upd_idem)
        with None show ?thesis using a b True
          by (simp add: wc lm)
      next
        case (Some c)
        have "set (world_constraints s') = set (world_constraints s) - {c}
             - {c'. \<exists>l' \<in> set ls. touches i l' \<and> ((map_of (linkMap s))(lid l := None)) (lid l') = Some c'}"
          using b d by (simp add: wc lm Some)
        also have "\<dots> = set (world_constraints s)
           - {c'. map_of (linkMap s) (lid l) = Some c' \<or> (\<exists>l'\<in>set ls. touches i l' \<and> map_of (linkMap s) (lid l') = Some c')}"
          using Some by (rule removed_handles_step [where M = "map_of (linkMap s)" and K = "lid l"])
        also have "\<dots> = set (world_constraints s)
             - {c. \<exists>l' \<in> set (l # ls). touches i l' \<and> map_of (linkMap s) (lid l') = Some c}"
          using True by simp
        finally show ?thesis using a by simp
      qed
    qed
    show ?thesis using 3 4 by blast
  qed
qed

lemma removeLinksFor_shape:
  "\<exists>lm wc. removeLinksFor i s =
     s\<lparr>links := filter (\<lambda>l. \<not> touches i l) (links s), linkMap := lm, world_constraints := wc\<rparr>"
proof -
  from removeLink_fold_shape [of i "links s" "[]" s] obtain lm wc where
    "fold (removeLink_step i) (links s) ([], s) =
     (filter (\<lambda>l. \<not> touches i l) (links s), s\<lparr>linkMap := lm, world_constraints := wc\<rparr>)"
    by auto
  then have "removeLinksFor i s = s\<lparr>links := filter (\<lambda>l. \<not> touches i l) (links s), linkMap := lm, world_constraints := wc\<rparr>"
    by (simp add: removeLinksFor_def)
  then show ?thesis by blast
qed

lemma removeLinksFor_maps:
  "(\<forall>k. map_of (linkMap (removeLinksFor i s)) k =
         (if k \<in> lid ` {l \<in> set (links s). touches i l} then None else map_of (linkMap s) k))
   \<and> (distinct (world_constraints s) \<longrightarrow> distinct (world_constraints (removeLinksFor i s))
        \<and> set (world_constraints (removeLinksFor i s)) = set (world_constraints s)
             - {c. \<exists>l \<in> set (links s). touches i l \<and> map_of (linkMap s) (lid l) = Some c})"
proof -
  obtain rem' s' where f: "fold (removeLink_step i) (links s) ([], s) = (rem', s')"
    by (cases "fold (removeLink_step i) (links s) ([], s)")
  have r: "linkMap (removeLinksFor i s) = linkMap s'"
    "world_constraints (removeLinksFor i s) = world_constraints s'"
    by (simp_all add: removeLinksFor_def f)
  from removeLink_fold_maps [OF f] show ?thesis unfolding r .
qed

lemma createLink_effect:
  assumes "map_of (bodyMap s) aId = Some hA" and "map_of (bodyMap s) bId = Some hB"
    and "heap_bodies s hA = Some bodyA" and "heap_bodies s hB = Some bodyB"
  shows "let d = sqrt ((fst (b_position bodyB) - fst (b_position bodyA))\<^sup>2
                     + (snd (b_position bodyB) - snd (b_position bodyA))\<^sup>2);
             opts = \<lparr>stiffness = 0.04, damping = 0.02, rest_length = min 220 d\<rparr>;
             s' = createLink aId bId s
         in links s' = links s @ [\<lparr>lid = link_name (nextLinkId s), link_a = aId, link_b = bId,
                                   options = opts\<rparr>]
          \<and> map_of (linkMap s') (link_name (nextLinkId s)) = Some (next_handle s)
          \<and> heap_constraints s' (next_handle s) = Some \<lparr>c_bodyA = hA, c_bodyB = hB, c_options = opts\<rparr>
          \<and> world_constraints s' = world_constraints s @ [next_handle s]
          \<and> (220 < d \<longrightarrow> rest_length opts < d)"
  using assms
  by (simp add: createLink_def Let_def new_constraint_def world_add_constraint_def hypot_def
      power2_eq_square update_conv')

lemma rebuildBody_effect:
  assumes "map_of (bodyMap s) (oid model) = Some existing"
    and "heap_bodies s existing = Some old"
  shows "let s' = rebuildBody model s; h = next_handle s
         in map_of (bodyMap s') (oid model) = Some h
          \<and> heap_bodies s' h = Some ((buildBody model)\<lparr>b_position := b_position old,
                b_velocity := b_velocity old, b_angularVelocity := b_angularVelocity old,
                b_angle := b_angle old\<rparr>)
          \<and> world_bodies s' = remove1 existing (world_bodies s) @ [h]
          \<and> (existing < next_handle s \<longrightarrow> h \<noteq> existing \<and> heap_bodies s' existing = Some old)"
  using assms
  by (simp add: rebuildBody_def Let_def refreshLinksFor_keeps world_defs update_conv')


subsection \<open>The example scenes, evaluated\<close>

lemma scene_two_eval:
  "bodyMap scene_two = [(''obj-1'', 0), (''obj-2'', 1)]"
  "heap_bodies scene_two 0 = Some (buildBody \<lparr>oid = ''obj-1'', label = ''circle'', position = (0, 0), angle = 0,
        bodyType = Dynamic, locked = False, shape = Circle 20,
         physics = DEFAULT_PHYSICS, visual = DEFAULT_VISUAL\<rparr>)"
  "heap_bodies scene_two (Suc 0) = Some (buildBody \<lparr>oid = ''obj-2'', label = ''rectangle'', position = (3, 4), angle = 0,
        bodyType = Dynamic, locked = False, shape = Rectangle 40 30,
         physics = DEFAULT_PHYSICS, visual = DEFAULT_VISUAL\<rparr>)"
  "links scene_two = []" "linkMap scene_two = []" "next_handle scene_two = 2"
  "nextLinkId scene_two = 1" "world_constraints scene_two = []" "world_bodies scene_two = [0, 1]"
  "constraintAnchor scene_two = None"
  by (simp_all add: scene_two_def circleA_def rectB_def eval_defs)

lemma sqrt25: "sqrt 25 = 5"
  using real_sqrt_abs [of 5] by simp

lemma scene_moving_eval:
  "bodyMap scene_moving = [(''obj-1'', 0), (''obj-2'', 1)]"
  "heap_bodies scene_moving 0 = Some \<lparr>b_position = (10, 20), b_velocity = (1, 2), b_angle = 1 / 2,
      b_angularVelocity = 1 / 4, b_geometry = Circle 20, b_material = DEFAULT_PHYSICS,
      b_isStatic = False, b_isSensor = False, plugin_modelId = ''obj-1'', plugin_locked = False\<rparr>"
  "world_bodies scene_moving = [0, 1]" "next_handle scene_moving = 2"
  by (simp_all add: scene_moving_def tick_def syncModelTransforms_def scene_two_eval move_body_def
      drift_def buildBody_def body_geometry_def)

lemma scene_linked_eval:
  "selectedIds scene_linked = [''obj-1'']"
  "links scene_linked = [\<lparr>lid = ''link-1'', link_a = ''obj-1'', link_b = ''obj-2'',
       options = \<lparr>stiffness = 0.04, damping = 0.02, rest_length = 5\<rparr>\<rparr>]"
  "linkMap scene_linked = [(''link-1'', 2)]"
  "world_constraints scene_linked = [2]"
  "bodyMap scene_linked = [(''obj-1'', 0), (''obj-2'', 1)]"
  "world_bodies scene_linked = [0, 1]"
  "map oid (objects scene_linked) = [''obj-1'', ''obj-2'']"
  by (simp_all add: scene_linked_def run_def handleConstraintPoint_def scene_two_eval createLink_def
     new_constraint_def world_add_constraint_def Let_def hypot_def buildBody_def sqrt25 link_name_def
     dec_int_def dec_nat.simps digit_char_def commitHistory_keeps handleSelection_def)
    (simp add: scene_two_def circleA_def rectB_def eval_defs)

subsection \<open>Snapshots and the history\<close>

lemma model_partD:
  assumes "model_part t = model_part s"
  shows "objects t = objects s" "links t = links s" "selectedIds t = selectedIds s"
    "constraintAnchor t = constraintAnchor s" "history t = history s"
    "historyIndex t = historyIndex s" "nextId t = nextId s" "nextLinkId t = nextLinkId s"
    "hint t = hint s"
  using assms by (simp_all add: model_part_def)

lemma model_part_world [simp]:
  "model_part (world_remove_body h s) = model_part s"
  "model_part (world_remove_constraint h s) = model_part s"
  "model_part (world_add_body h s) = model_part s"
  "model_part (world_add_constraint h s) = model_part s"
  "model_part (Body_setPosition h p s) = model_part s"
  "model_part (Body_setVelocity h p s) = model_part s"
  "model_part (Body_setAngularVelocity h w s) = model_part s"
  "model_part (Body_setAngle h w s) = model_part s"
  "model_part (snd (new_body b s)) = model_part s"
  "model_part (snd (new_constraint c s)) = model_part s"
  by (simp_all add: model_part_def world_defs split: option.splits)

lemma model_part_engine_upd [simp]:
  "model_part (s\<lparr>bodyMap := bm\<rparr>) = model_part s"
  "model_part (s\<lparr>linkMap := lm\<rparr>) = model_part s"
  "model_part (s\<lparr>heap_bodies := hb\<rparr>) = model_part s"
  "model_part (s\<lparr>heap_constraints := hc\<rparr>) = model_part s"
  "model_part (s\<lparr>world_bodies := wb\<rparr>) = model_part s"
  "model_part (s\<lparr>world_constraints := wc\<rparr>) = model_part s"
  "model_part (s\<lparr>next_handle := nh\<rparr>) = model_part s"
  by (simp_all add: model_part_def)

lemma model_part_materialize [simp]: "model_part (materialize m s) = model_part s"
  by (simp add: materialize_def Let_def split: prod.splits)
    (metis model_part_world(9) snd_conv)

lemma model_part_attachLink [simp]: "model_part (attachLink l s) = model_part s"
  by (simp add: attachLink_def Let_def split: prod.splits option.splits)
    (metis model_part_world(10) snd_conv)

lemma model_part_refreshLink [simp]: "model_part (refreshLink i l s) = model_part s"
  by (simp add: refreshLink_def split: option.splits)

lemma model_part_refreshLinksFor [simp]: "model_part (refreshLinksFor i s) = model_part s"
  unfolding refreshLinksFor_def by (rule fold_keeps) simp

lemma model_part_rebuildBody [simp]: "model_part (rebuildBody m s) = model_part s"
  by (simp add: rebuildBody_def Let_def split: option.splits prod.splits)
    (metis model_part_world(9) model_part_world(1) snd_conv)

lemma applySnapshot_model_part:
  "model_part (applySnapshot snap s) =
     (s_objects snap, s_links snap, [], constraintAnchor s, history s, historyIndex s,
      s_nextId snap,
      if s_nextLinkId snap \<noteq> 0 then s_nextLinkId snap else inferNextLinkId (s_links snap),
      hint s)"
proof -
  have fm: "model_part (fold materialize xs t) = model_part t" for xs t
    by (rule fold_keeps) simp
  have fa: "model_part (fold attachLink xs t) = model_part t" for xs t
    by (rule fold_keeps) simp
  have fb: "model_part (fold world_remove_body xs t) = model_part t" for xs t
    by (rule fold_keeps) simp
  have fc: "model_part (fold world_remove_constraint xs t) = model_part t" for xs t
    by (rule fold_keeps) simp
  show ?thesis
    unfolding applySnapshot_def Let_def
    by (simp add: fm fa fb fc) (simp add: model_part_def)
qed

lemma applySnapshot_model:
  "objects (applySnapshot snap s) = s_objects snap"
  "links (applySnapshot snap s) = s_links snap"
  "selectedIds (applySnapshot snap s) = []"
  "constraintAnchor (applySnapshot snap s) = constraintAnchor s"
  "history (applySnapshot snap s) = history s"
  "historyIndex (applySnapshot snap s) = historyIndex s"
  "nextId (applySnapshot snap s) = s_nextId snap"
  "nextLinkId (applySnapshot snap s) =
     (if s_nextLinkId snap \<noteq> 0 then s_nextLinkId snap else inferNextLinkId (s_links snap))"
  "hint (applySnapshot snap s) = hint s"
  using applySnapshot_model_part [of snap s] by (simp_all add: model_part_def)

lemma restore_at_model:
  assumes "0 \<le> i" "i < int (length (history s))"
  shows "take_snapshot (restore_at i s) = restored (history s ! nat i)"
    "history (restore_at i s) = history s" "historyIndex (restore_at i s) = i"
  using assms by (simp_all add: restore_at_def applySnapshot_model take_snapshot_def restored_def)

lemma commitHistory_history:
  "history (commitHistory s) = slice0 (history s) (historyIndex s + 1) @ [take_snapshot (commitHistory s)]"
  "historyIndex (commitHistory s) = int (length (history (commitHistory s))) - 1"
  by (simp_all add: commitHistory_def Let_def syncModelTransforms_def take_snapshot_def)

lemma history_walk:
  "(historyIndex s \<le> 0 \<longrightarrow> undo s = s)
 \<and> (int (length (history s)) - 1 \<le> historyIndex s \<longrightarrow> redo s = s)
 \<and> (history s = pre @ [S0, S1, S2] \<and> historyIndex s = int (length pre) + 2 \<longrightarrow>
       take_snapshot (undo (undo s)) = S0\<lparr>s_nextLinkId :=
         (if s_nextLinkId S0 \<noteq> 0 then s_nextLinkId S0 else inferNextLinkId (s_links S0))\<rparr>
     \<and> take_snapshot (redo (redo (undo (undo s)))) = S2\<lparr>s_nextLinkId :=
         (if s_nextLinkId S2 \<noteq> 0 then s_nextLinkId S2 else inferNextLinkId (s_links S2))\<rparr>
     \<and> history (undo (undo s)) = history s
     \<and> historyIndex (undo (undo s)) = int (length pre)
     \<and> history (redo (redo (undo (undo s)))) = history s
     \<and> historyIndex (redo (redo (undo (undo s)))) = historyIndex s
     \<and> history (commitHistory (undo (undo s))) = pre @ [S0, take_snapshot (commitHistory (undo (undo s)))])
 \<and> (- 1 \<le> historyIndex s \<longrightarrow>
       history (commitHistory s) =
         take (nat (historyIndex s + 1)) (history s) @ [take_snapshot (commitHistory s)]
     \<and> historyIndex (commitHistory s) = int (length (history (commitHistory s))) - 1
     \<and> redo (commitHistory s) = commitHistory s)"
proof (intro conjI impI)
  show "undo s = s" if "historyIndex s \<le> 0"
    using that by (simp add: undo_def)
  show "redo s = s" if "int (length (history s)) - 1 \<le> historyIndex s"
    using that by (simp add: redo_def)
next
  assume a: "- 1 \<le> historyIndex s"
  show c1: "history (commitHistory s) =
         take (nat (historyIndex s + 1)) (history s) @ [take_snapshot (commitHistory s)]"
    using a by (simp add: commitHistory_history slice0_def)
  show c2: "historyIndex (commitHistory s) = int (length (history (commitHistory s))) - 1"
    by (simp add: commitHistory_history)
  show "redo (commitHistory s) = commitHistory s"
    using c2 by (simp add: redo_def)
next
  assume a: "history s = pre @ [S0, S1, S2] \<and> historyIndex s = int (length pre) + 2"
  define n where "n = int (length pre)"
  have hs: "history s = pre @ [S0, S1, S2]" and hi: "historyIndex s = n + 2"
    using a by (simp_all add: n_def)
  have n0: "0 \<le> n" by (simp add: n_def)
  have len: "int (length (history s)) = n + 3" by (simp add: hs n_def)
  have nth: "history s ! nat n = S0" "history s ! nat (n + 1) = S1" "history s ! nat (n + 2) = S2"
    by (simp_all add: hs n_def nth_append nat_add_distrib)
  define u1 where "u1 = undo s"
  have u1: "u1 = restore_at (n + 1) s"
    using n0 by (simp add: u1_def undo_def hi add.commute)
  have u1h: "history u1 = history s" "historyIndex u1 = n + 1"
    unfolding u1 using n0 by (simp_all add: restore_at_model len)
  define u2 where "u2 = undo u1"
  have u2: "u2 = restore_at n u1"
    using n0 by (simp add: u2_def undo_def u1h add.commute)
  have u2h: "history u2 = history s" "historyIndex u2 = n"
    and u2m: "take_snapshot u2 = restored S0"
    unfolding u2 using n0 by (simp_all add: restore_at_model u1h len nth)
  define r1 where "r1 = redo u2"
  have r1: "r1 = restore_at (n + 1) u2"
    using n0 by (simp add: r1_def redo_def u2h len add.commute)
  have r1h: "history r1 = history s" "historyIndex r1 = n + 1"
    unfolding r1 using n0 by (simp_all add: restore_at_model u2h len)
  define r2 where "r2 = redo r1"
  have r2: "r2 = restore_at (n + 2) r1"
    using n0 by (simp add: r2_def redo_def r1h len add.commute)
  have r2h: "history r2 = history s" "historyIndex r2 = n + 2"
    and r2m: "take_snapshot r2 = restored S2"
    unfolding r2 using n0 by (simp_all add: restore_at_model r1h len nth)
  show "take_snapshot (undo (undo s)) = S0\<lparr>s_nextLinkId :=
         (if s_nextLinkId S0 \<noteq> 0 then s_nextLinkId S0 else inferNextLinkId (s_links S0))\<rparr>"
    using u2m by (simp add: u2_def u1_def restored_def)
  show "take_snapshot (redo (redo (undo (undo s)))) = S2\<lparr>s_nextLinkId :=
         (if s_nextLinkId S2 \<noteq> 0 then s_nextLinkId S2 else inferNextLinkId (s_links S2))\<rparr>"
    using r2m by (simp add: r2_def r1_def u2_def u1_def restored_def)
  show "history (undo (undo s)) = history s"
    using u2h by (simp add: u2_def u1_def)
  show "historyIndex (undo (undo s)) = int (length pre)"
    using u2h by (simp add: u2_def u1_def n_def)
  show "history (redo (redo (undo (undo s)))) = history s"
    using r2h by (simp add: r2_def r1_def u2_def u1_def)
  show "historyIndex (redo (redo (undo (undo s)))) = historyIndex s"
    using r2h hi by (simp add: r2_def r1_def u2_def u1_def)
  show "history (commitHistory (undo (undo s))) = pre @ [S0, take_snapshot (commitHistory (undo (undo s)))]"
  proof -
    have "nat (int (length pre) + 1) = Suc (length pre)" by simp
    then show ?thesis
      using u2h by (simp add: u2_def [symmetric] u1_def [symmetric] commitHistory_history slice0_def hs n_def)
  qed
qed

lemmas load_defs = loadScene_def load_document_def or_else_def applySnapshot_def attachLink_def
  inferNextLinkId_def inferNextId_def inferNext_def to_double_def id_number_def parseInt10_def is_js_space_def
  is_digit_def digit_val_def digits_val_def List.map_filter_def

lemma scene_zero_counter_eval:
  "historyIndex scene_zero_counter = 2"
  "length (history scene_zero_counter) = 3"
  "s_nextLinkId (history scene_zero_counter ! 2) = 0"
  "map lid (s_links (history scene_zero_counter ! 2)) = [''link-7'', ''link--1'']"
  "take_snapshot scene_zero_counter = history scene_zero_counter ! 2"
  by (simp_all add: scene_zero_counter_def neg_link_doc_def eval_defs load_defs
      handleConstraintPoint_def createLink_def)

lemma list3: "length xs = 3 \<Longrightarrow> xs = [] @ [xs ! 0, xs ! 1, xs ! 2]"
  by (auto simp: numeral_3_eq_3 length_Suc_conv)

lemma restored_nonzero:
  "s_nextLinkId S \<noteq> 0 \<Longrightarrow>
   S\<lparr>s_nextLinkId := (if s_nextLinkId S \<noteq> 0 then s_nextLinkId S else d)\<rparr> = S"
  by simp

lemma scene_two_history:
  "historyIndex scene_two = 2" "length (history scene_two) = 3"
  "history scene_two ! 0 = \<lparr>s_objects = [], s_links = [], s_nextId = 1, s_nextLinkId = 1\<rparr>"
  "s_nextLinkId (history scene_two ! 2) = 1" "s_nextId (history scene_two ! 2) = 3"
  "map oid (s_objects (history scene_two ! 2)) = [''obj-1'', ''obj-2'']"
  "historyIndex initial = 0"
  by (simp_all add: scene_two_def circleA_def rectB_def eval_defs)


section \<open>Decimal numbers in ids\<close>

lemma digit_char_props:
  assumes "d < 10"
  shows "is_digit (digit_char d)" "digit_val (digit_char d) = int d"
    "\<not> is_js_space (digit_char d)" "digit_char d \<noteq> CHR ''-''" "digit_char d \<noteq> CHR ''+''"
proof -
  from assms have "d = 0 \<or> d = 1 \<or> d = 2 \<or> d = 3 \<or> d = 4 \<or> d = 5 \<or> d = 6
    \<or> d = 7 \<or> d = 8 \<or> d = 9" by arith
  then consider "d = 0" | "d = 1" | "d = 2" | "d = 3" | "d = 4" | "d = 5" | "d = 6"
    | "d = 7" | "d = 8" | "d = 9" by blast
  then have "is_digit (digit_char d) \<and> digit_val (digit_char d) = int d
    \<and> \<not> is_js_space (digit_char d) \<and> digit_char d \<noteq> CHR ''-'' \<and> digit_char d \<noteq> CHR ''+''"
    by cases (simp_all add: digit_char_def is_digit_def digit_val_def is_js_space_def)
  then show "is_digit (digit_char d)" "digit_val (digit_char d) = int d"
    "\<not> is_js_space (digit_char d)" "digit_char d \<noteq> CHR ''-''" "digit_char d \<noteq> CHR ''+''"
    by simp_all
qed


lemma dec_nat_digits: "list_all is_digit (dec_nat n) \<and> dec_nat n \<noteq> [] \<and> digits_val (dec_nat n) = int n"
proof (induction n rule: dec_nat.induct)
  case (1 n)
  show ?case
  proof (cases "n < 10")
    case True
    then show ?thesis
      by (simp add: dec_nat.simps [of n] digit_char_props digits_val_def)
  next
    case False
    from 1 [OF False] have ih: "list_all is_digit (dec_nat (n div 10))"
      "digits_val (dec_nat (n div 10)) = int (n div 10)" by simp_all
    have m: "n mod 10 < 10" by simp
    have "digits_val (dec_nat (n div 10) @ [digit_char (n mod 10)])
        = 10 * digits_val (dec_nat (n div 10)) + digit_val (digit_char (n mod 10))"
      by (simp add: digits_val_def)
    also have "\<dots> = 10 * int (n div 10) + int (n mod 10)"
      by (simp add: ih digit_char_props [OF m])
    also have "\<dots> = int n" by (simp add: zdiv_int zmod_int)
    finally show ?thesis using False ih
      by (simp add: dec_nat.simps [of n] digit_char_props [OF m])
  qed
qed

lemma takeWhile_all: "list_all P xs \<Longrightarrow> takeWhile P xs = xs"
  by (induction xs) auto

lemma parseInt10_dec_nat: "parseInt10 (dec_nat n) = Some (int n)"
proof -
  from dec_nat_digits [of n] obtain c cs where
    cs: "dec_nat n = c # cs" and d: "list_all is_digit (c # cs)" and v: "digits_val (c # cs) = int n"
    by (cases "dec_nat n") auto
  from d have "is_digit c" by simp
  then have c: "\<not> is_js_space c" "c \<noteq> CHR ''-''" "c \<noteq> CHR ''+''"
    by (auto simp: is_digit_def is_js_space_def)
  have t: "takeWhile is_digit (c # cs) = c # cs" using d by (rule takeWhile_all)
  show ?thesis
    unfolding parseInt10_def cs using c t v by (simp add: Let_def)
qed

lemma split_on_none: "c \<notin> set xs \<Longrightarrow> split_on c xs = [xs]"
  by (induction xs) auto

lemma split_on_prefix: "c \<notin> set xs \<Longrightarrow> split_on c (xs @ c # ys) = xs # split_on c ys"
  by (induction xs) auto

lemma dec_nat_no_dash: "CHR ''-'' \<notin> set (dec_nat n)"
proof
  assume "CHR ''-'' \<in> set (dec_nat n)"
  with dec_nat_digits [of n] have "is_digit CHR ''-''"
    by (simp add: list_all_iff)
  then show False by (simp add: is_digit_def)
qed

lemma split_named:
  assumes "CHR ''-'' \<notin> set pre"
  shows "split_on CHR ''-'' (pre @ CHR ''-'' # dec_nat k) = [pre, dec_nat k]"
  using split_on_prefix [OF assms, of "dec_nat k"] split_on_none [OF dec_nat_no_dash, of k]
  by simp

lemma id_number_named:
  assumes "CHR ''-'' \<notin> set pre"
  shows "id_number (pre @ CHR ''-'' # dec_nat k) = Some (int k)"
  unfolding id_number_def split_named [OF assms] by (simp add: parseInt10_dec_nat)

lemma id_number_obj_name: "0 \<le> n \<Longrightarrow> id_number (obj_name n) = Some n"
proof -
  assume n: "0 \<le> n"
  have "obj_name n = ''obj'' @ CHR ''-'' # dec_nat (nat n)"
    using n by (simp add: obj_name_def dec_int_def)
  moreover have "id_number (''obj'' @ CHR ''-'' # dec_nat (nat n)) = Some (int (nat n))"
    by (rule id_number_named) simp
  ultimately show ?thesis using n by simp
qed

lemma id_number_link_name: "0 \<le> n \<Longrightarrow> id_number (link_name n) = Some n"
proof -
  assume n: "0 \<le> n"
  have "link_name n = ''link'' @ CHR ''-'' # dec_nat (nat n)"
    using n by (simp add: link_name_def dec_int_def)
  moreover have "id_number (''link'' @ CHR ''-'' # dec_nat (nat n)) = Some (int (nat n))"
    by (rule id_number_named) simp
  ultimately show ?thesis using n by simp
qed






lemma load_counters:
  assumes "d_objects data = Some objs"
  shows "nextId (fst (loadScene data s)) = or_else (d_nextId data) (inferNextId objs)"
    "nextLinkId (fst (loadScene data s)) = or_else (d_nextLinkId data) 1"
    "links (fst (loadScene data s)) = (case d_links data of None \<Rightarrow> [] | Some l \<Rightarrow> l)"
    "map oid (objects (fst (loadScene data s))) = map oid objs"
  using assms
  by (simp_all add: loadScene_def load_document_def Let_def commitHistory_keeps applySnapshot_model
      or_else_def split: option.splits)








section \<open>The bodies after a restore\<close>

lemma sync_model_body_of:
  "sync_model s m = (case body_of s (oid m) of None \<Rightarrow> m
     | Some b \<Rightarrow> m\<lparr>position := b_position b, angle := b_angle b\<rparr>)"
  by (simp add: sync_model_def body_of_def split: option.splits)

lemma update_entries: "(k', h) \<in> set (AList.update k v al) \<Longrightarrow> h = v \<or> (k', h) \<in> set al"
  by (induction al) (auto split: if_splits)

lemma materialize_body_of:
  assumes "handles_fresh s"
  shows "body_of (materialize m s) i = (if i = oid m then Some (buildBody m) else body_of s i)"
    and "handles_fresh (materialize m s)"
proof -
  have bm: "bodyMap (materialize m s) = AList.update (oid m) (next_handle s) (bodyMap s)"
    and hp: "heap_bodies (materialize m s) = (heap_bodies s)(next_handle s \<mapsto> buildBody m)"
    and nh: "next_handle (materialize m s) = Suc (next_handle s)"
    by (simp_all add: materialize_def world_defs Let_def)
  have fr: "h < next_handle s" if "map_of (bodyMap s) k = Some h" for k h
    using assms map_of_SomeD [OF that] by (auto simp: handles_fresh_def list_all_iff)
  show "body_of (materialize m s) i = (if i = oid m then Some (buildBody m) else body_of s i)"
    using fr by (auto simp: body_of_def bm hp update_conv' split: option.splits)
  show "handles_fresh (materialize m s)"
    using assms unfolding handles_fresh_def list_all_iff bm nh
    by (auto simp: less_Suc_eq dest!: update_entries)
qed

lemma find_snoc:
  "find P (xs @ [x]) = (case find P xs of None \<Rightarrow> (if P x then Some x else None) | Some y \<Rightarrow> Some y)"
  by (induction xs) auto

lemma fold_materialize_body_of:
  "handles_fresh s \<Longrightarrow>
     handles_fresh (fold materialize objs s)
   \<and> body_of (fold materialize objs s) i =
       (case find (\<lambda>m. oid m = i) (rev objs) of None \<Rightarrow> body_of s i | Some m \<Rightarrow> Some (buildBody m))"
proof (induction objs arbitrary: s)
  case Nil
  then show ?case by simp
next
  case (Cons m ms)
  note f = materialize_body_of [OF Cons.prems, of m]
  from Cons.IH [OF f(2)] show ?case
    by (auto simp: f(1) find_snoc split: option.splits)
qed

lemma body_of_cong:
  "bodyMap t = bodyMap (s :: playground) \<Longrightarrow> heap_bodies t = heap_bodies s \<Longrightarrow> body_of t = body_of s"
  by (rule ext) (simp add: body_of_def split: option.splits)

lemma applySnapshot_body_of:
  "body_of (applySnapshot snap s) i = map_option buildBody (find (\<lambda>m. oid m = i) (rev (s_objects snap)))"
proof -
  define s1 where "s1 = s\<lparr>objects := s_objects snap, links := s_links snap, nextId := s_nextId snap,
                nextLinkId := (if s_nextLinkId snap \<noteq> 0 then s_nextLinkId snap
                               else inferNextLinkId (s_links snap)),
                selectedIds := []\<rparr>"
  define s2 where "s2 = fold world_remove_body (map snd (bodyMap s1)) s1"
  define s3 where "s3 = fold world_remove_constraint (map snd (linkMap s2)) s2"
  define s4 where "s4 = s3\<lparr>bodyMap := [], linkMap := []\<rparr>"
  define s5 where "s5 = fold materialize (objects s4) s4"
  have a: "applySnapshot snap s = fold attachLink (links s5) s5"
    by (simp add: applySnapshot_def Let_def s1_def s2_def s3_def s4_def s5_def)
  have o2: "objects s2 = objects s1" unfolding s2_def
    by (rule fold_keeps) (simp add: world_defs)
  have o3: "objects s3 = objects s2" unfolding s3_def
    by (rule fold_keeps) (simp add: world_defs)
  have o4: "objects s4 = s_objects snap"
    by (simp add: s4_def o3 o2 s1_def)
  have f4: "handles_fresh s4" "body_of s4 i = None"
    by (simp_all add: handles_fresh_def body_of_def s4_def)
  have b5: "body_of s5 i = map_option buildBody (find (\<lambda>m. oid m = i) (rev (s_objects snap)))"
    using fold_materialize_body_of [OF f4(1), of "objects s4" i]
    by (simp add: s5_def o4 f4(2) split: option.splits)
  have "bodyMap (fold attachLink (links s5) s5) = bodyMap s5"
    by (rule fold_keeps) (simp add: attachLink_keeps)
  moreover have "heap_bodies (fold attachLink (links s5) s5) = heap_bodies s5"
    by (rule fold_keeps) (simp add: attachLink_keeps)
  ultimately have "body_of (applySnapshot snap s) = body_of s5"
    unfolding a by (rule body_of_cong)
  with b5 show ?thesis by simp
qed

lemma commitHistory_objects: "objects (commitHistory s) = map (sync_model s) (objects s)"
  by (simp add: commitHistory_def syncModelTransforms_def Let_def)

lemma sync_after_applySnapshot:
  "map (sync_model (applySnapshot snap s)) (s_objects snap) = settled (s_objects snap)"
  unfolding settled_def
  by (rule map_cong [OF refl])
    (simp add: sync_model_body_of applySnapshot_body_of buildBody_def split: option.splits)

lemma load_objects:
  assumes "d_objects data = Some objs"
  shows "objects (fst (loadScene data s)) = settled objs"
  using assms
  by (simp add: loadScene_def load_document_def Let_def commitHistory_objects applySnapshot_model
      sync_after_applySnapshot [of "\<lparr>s_objects = objs, s_links = ls, s_nextId = n, s_nextLinkId = nl\<rparr>" for ls n nl, simplified])

lemma find_map_oid:
  assumes "\<And>m. oid (g m) = oid (m :: scene_object)"
  shows "find (\<lambda>m. oid m = i) (map g xs) = map_option g (find (\<lambda>m :: scene_object. oid m = i) xs)"
  by (induction xs) (simp_all add: assms)

lemma find_oid: "find (\<lambda>m :: scene_object. oid m = i) xs = Some m \<Longrightarrow> oid m = i"
  by (induction xs) (auto split: if_splits)

lemma settled_idem: "settled (settled objs) = settled objs"
proof -
  define L where "L i = find (\<lambda>m'. oid m' = i) (rev objs)" for i
  define g :: "scene_object \<Rightarrow> scene_object" where "g m = (case L (oid m) of None \<Rightarrow> m
     | Some m' \<Rightarrow> m\<lparr>position := position m', angle := angle m'\<rparr>)" for m
  have s: "settled objs = map g objs"
    by (simp add: settled_def g_def L_def)
  have og: "oid (g m) = oid m" for m
    by (simp add: g_def split: option.splits)
  have Lg: "find (\<lambda>m'. oid m' = i) (rev (map g objs)) = map_option g (L i)" for i
    unfolding rev_map L_def by (rule find_map_oid) (rule og)
  have gfix: "g m' = m'" if "L i = Some m'" for i m'
  proof -
    from that have "oid m' = i" unfolding L_def by (rule find_oid)
    with that show ?thesis by (simp add: g_def)
  qed
  have "settled (map g objs) = map g objs"
    unfolding settled_def map_map
  proof (rule map_cong [OF refl])
    fix m assume "m \<in> set objs"
    show "((\<lambda>m. case find (\<lambda>m'. oid m' = oid m) (rev (map g objs)) of None \<Rightarrow> m
             | Some m' \<Rightarrow> m\<lparr>position := position m', angle := angle m'\<rparr>) \<circ> g) m = g m"
    proof (cases "L (oid m)")
      case None
      then show ?thesis by (simp add: Lg og g_def)
    next
      case (Some m')
      then show ?thesis by (simp add: Lg og gfix [OF Some]) (simp add: g_def Some)
    qed
  qed
  then show ?thesis by (simp add: s)
qed

lemma inferNextId_settled: "inferNextId (settled objs) = inferNextId objs"
proof -
  have "map oid (settled objs) = map oid objs"
    by (simp add: settled_def comp_def split: option.splits)
  then show ?thesis by (simp add: inferNextId_def)
qed

lemma or_else_again: "or_else (Some (or_else v d)) d = or_else v d"
  by (simp add: or_else_def split: option.splits)

lemma or_else_nonzero: "d \<noteq> 0 \<Longrightarrow> or_else v d \<noteq> 0"
  by (simp add: or_else_def split: option.splits)

section \<open>Properties of ids that hold in every reachable state\<close>

subsection \<open>Operations that leave the ids alone\<close>

lemma holds_throughout_alt:
  "holds_throughout P s =
    (P (state_ids s) \<and> (\<forall>snap \<in> set (history s). P (snap_ids snap))
     \<and> fst ` set (bodyMap s) \<subseteq> set (map oid (objects s)))"
  by (auto simp: holds_throughout_def list_all_iff)

lemma holds_throughout_view:
  "ids_view t = ids_view s \<Longrightarrow> holds_throughout P t = holds_throughout P s"
  by (auto simp: holds_throughout_alt ids_view_def state_ids_def)

lemma ids_viewI:
  "map oid (objects t) = map oid (objects s) \<Longrightarrow> links t = links s \<Longrightarrow> nextId t = nextId s \<Longrightarrow>
   nextLinkId t = nextLinkId s \<Longrightarrow> history t = history s \<Longrightarrow>
   fst ` set (bodyMap t) = fst ` set (bodyMap s) \<Longrightarrow> ids_view t = ids_view s"
  by (simp add: ids_view_def state_ids_def)

lemma ids_view_model_part:
  "model_part t = model_part s \<Longrightarrow> fst ` set (bodyMap t) = fst ` set (bodyMap s) \<Longrightarrow>
   ids_view t = ids_view s"
  by (rule ids_viewI) (simp_all add: model_part_def)

lemma ids_view_selection [simp]:
  "ids_view (handleSelection i shift s) = ids_view s"
  "ids_view (clearSelection s) = ids_view s"
  "ids_view (selectTool tool s) = ids_view s"
  "ids_view (s\<lparr>selectedIds := sel\<rparr>) = ids_view s"
  "ids_view (s\<lparr>constraintAnchor := anchor\<rparr>) = ids_view s"
  "ids_view (s\<lparr>hint := hn\<rparr>) = ids_view s"
  "ids_view (s\<lparr>historyIndex := ix\<rparr>) = ids_view s"
  "ids_view (s\<lparr>heap_bodies := hb\<rparr>) = ids_view s"
  by (simp_all add: ids_view_def state_ids_def handleSelection_def clearSelection_def selectTool_def)

lemma bodyMap_rebuildBody:
  "fst ` set (bodyMap (rebuildBody m s)) = fst ` set (bodyMap s)"
proof (cases "map_of (bodyMap s) (oid m)")
  case None
  then show ?thesis by (simp add: rebuildBody_def)
next
  case (Some existing)
  then have k: "oid m \<in> fst ` set (bodyMap s)"
    by (metis domI dom_map_of_conv_image_fst)
  show ?thesis
  proof (cases "heap_bodies s existing")
    case None
    with Some show ?thesis by (simp add: rebuildBody_def)
  next
    case (Some old)
    with \<open>map_of (bodyMap s) (oid m) = Some existing\<close> k show ?thesis
      by (auto simp: rebuildBody_def Let_def refreshLinksFor_keeps world_defs dom_update)
  qed
qed

lemma ids_view_rebuildBody [simp]: "ids_view (rebuildBody m s) = ids_view s"
  by (rule ids_view_model_part) (simp_all add: bodyMap_rebuildBody)

lemma map_oid_assign_model:
  "(\<And>m. oid (f m) = oid m) \<Longrightarrow> map oid (assign_model i f objs) = map oid objs"
  by (induction objs) simp_all

lemma ids_view_objects:
  "map oid objs = map oid (objects s) \<Longrightarrow> ids_view (s\<lparr>objects := objs\<rparr>) = ids_view s"
  by (simp add: ids_view_def state_ids_def)

lemma ids_view_edit_model:
  assumes "\<And>m. oid (f m) = oid m"
  shows "ids_view (edit_model f rebuild i s) = ids_view s"
  by (simp add: edit_model_def Let_def ids_view_objects map_oid_assign_model assms
      split: option.splits)

lemma ids_view_changeShape_step [simp]: "ids_view (changeShape_step bounds ty i s) = ids_view s"
  by (simp add: changeShape_step_def Let_def ids_view_objects map_oid_assign_model
      split: option.splits prod.splits)

lemma ids_view_changePolygonSides_step [simp]:
  "ids_view (changePolygonSides_step n i s) = ids_view s"
proof -
  have "oid (set_sides n m) = oid m" for m
    by (simp add: set_sides_def split: shape.splits)
  then show ?thesis
    by (simp add: changePolygonSides_step_def ids_view_edit_model split: option.splits)
qed

lemma ids_view_toggleLock_step [simp]: "ids_view (toggleLock_step lock i s) = ids_view s"
  by (simp add: toggleLock_step_def Let_def ids_view_objects map_oid_assign_model
      split: option.splits)

lemma map_oid_sync: "map oid (map (sync_model t) objs) = map oid objs"
  by (simp add: sync_model_def comp_def split: option.splits)

lemma ids_view_sync [simp]: "ids_view (syncModelTransforms s) = ids_view s"
  unfolding syncModelTransforms_def by (rule ids_view_objects) (rule map_oid_sync)

lemma ids_view_tick [simp]: "ids_view (tick motion s) = ids_view s"
  by (simp add: tick_def)

lemma set_slice0: "set (slice0 xs n) \<subseteq> set xs"
  by (auto simp: slice0_def dest: in_set_takeD)

lemma state_ids_commit: "state_ids (commitHistory s) = state_ids s"
  by (simp add: state_ids_def commitHistory_keeps)

lemma snap_ids_take_snapshot: "snap_ids (take_snapshot s) = state_ids s"
  by (simp add: snap_ids_def take_snapshot_def state_ids_def)

lemma commit_holds:
  assumes "holds_throughout P s"
  shows "holds_throughout P (commitHistory s)"
proof -
  have h: "set (history (commitHistory s)) \<subseteq> insert (take_snapshot (commitHistory s)) (set (history s))"
    using set_slice0 [of "history s" "historyIndex s + 1"]
    by (auto simp: commitHistory_history(1))
  have "P (snap_ids snap)" if "snap \<in> set (history (commitHistory s))" for snap
    using that h assms
    by (auto simp: holds_throughout_alt snap_ids_take_snapshot state_ids_commit)
  then show ?thesis
    using assms
    by (simp add: holds_throughout_alt state_ids_commit commitHistory_keeps)
qed

lemma fold_view:
  assumes "\<And>x s. ids_view (f x s) = ids_view s"
  shows "ids_view (fold f xs s) = ids_view s"
  by (rule fold_keeps) (rule assms)

lemma fold_commit_holds:
  assumes "holds_throughout P s" and "\<And>x s. ids_view (f x s) = ids_view s"
  shows "holds_throughout P (commitHistory (fold f xs s))"
proof -
  have "ids_view (fold f xs s) = ids_view s"
    by (rule fold_view) (rule assms(2))
  from holds_throughout_view [OF this, of P] assms(1) have "holds_throughout P (fold f xs s)"
    by blast
  then show ?thesis by (rule commit_holds)
qed

lemma guarded_commit_holds:
  assumes "holds_throughout P s" and "\<And>x s. ids_view (f x s) = ids_view s"
  shows "holds_throughout P (if selectedIds s = [] then s else commitHistory (fold f (selectedIds s) s))"
  using assms(1) fold_commit_holds [where f = f and xs = "selectedIds s", OF assms] by simp

lemma edit_ops_hold:
  assumes "holds_throughout P s"
  shows "holds_throughout P (updatePhysics patch s)"
    "holds_throughout P (updateVisual vpatch s)"
    "holds_throughout P (updateSelection bt s)"
    "holds_throughout P (changeShape bounds ty s)"
    "holds_throughout P (changePolygonSides n s)"
    "holds_throughout P (toggleLock lock s)"
    "holds_throughout P (tick motion s)"
    "holds_throughout P (handleSelection i shift s)"
    "holds_throughout P (clearSelection s)"
    "holds_throughout P (selectTool tool s)"
proof -
  show "holds_throughout P (updatePhysics patch s)"
    unfolding updatePhysics_def
    by (rule guarded_commit_holds [OF assms], rule ids_view_edit_model) simp
  show "holds_throughout P (updateVisual vpatch s)"
    unfolding updateVisual_def
    by (rule guarded_commit_holds [OF assms], rule ids_view_edit_model) simp
  show "holds_throughout P (updateSelection bt s)"
    unfolding updateSelection_def
    by (rule guarded_commit_holds [OF assms], rule ids_view_edit_model) simp
  show "holds_throughout P (changeShape bounds ty s)"
    unfolding changeShape_def
    by (rule guarded_commit_holds [OF assms]) (rule ids_view_changeShape_step)
  show "holds_throughout P (changePolygonSides n s)"
    unfolding changePolygonSides_def
    by (rule guarded_commit_holds [OF assms]) (rule ids_view_changePolygonSides_step)
  show "holds_throughout P (toggleLock lock s)"
    unfolding toggleLock_def
    by (rule fold_commit_holds [OF assms]) (rule ids_view_toggleLock_step)
  show "holds_throughout P (tick motion s)" "holds_throughout P (handleSelection i shift s)"
    "holds_throughout P (clearSelection s)" "holds_throughout P (selectTool tool s)"
    using assms holds_throughout_view [OF ids_view_tick, of P motion s]
      holds_throughout_view [OF ids_view_selection(1), of P i shift s]
      holds_throughout_view [OF ids_view_selection(2), of P s]
      holds_throughout_view [OF ids_view_selection(3), of P tool s]
    by blast+
qed

subsection \<open>Operations that create, delete or replace ids\<close>

lemma stableD:
  assumes "stable P"
  shows "P ([], [], 1, 1)"
    and "P (os, ls, n, nl) \<Longrightarrow> P (os @ [obj_name n], ls, n + 1, nl)"
    and "P (os, ls, n, nl) \<Longrightarrow> a \<in> set os \<Longrightarrow> b \<in> set os \<Longrightarrow>
           P (os, ls @ [\<lparr>lid = link_name nl, link_a = a, link_b = b, options = opts\<rparr>], n, nl + 1)"
    and "P (os, ls, n, nl) \<Longrightarrow> P (filter (\<lambda>i. i \<noteq> X) os, filter (\<lambda>l. \<not> touches X l) ls, n, nl)"
    and "P (os, ls, n, nl) \<Longrightarrow> P (os, ls, n, if nl \<noteq> 0 then nl else inferNext (map lid ls))"
  using assms unfolding stable_def by blast+

lemma materialize_keys:
  "fst ` set (bodyMap (materialize m s)) = insert (oid m) (fst ` set (bodyMap s))"
  by (simp add: materialize_def world_defs Let_def dom_update)

lemma add_model_holds:
  assumes h: "holds_throughout P s" and st: "stable P" and o: "oid m = obj_name (nextId s)"
  shows "holds_throughout P (addModelToWorld m (s\<lparr>nextId := nextId s + 1\<rparr>))"
proof -
  define t where "t = addModelToWorld m (s\<lparr>nextId := nextId s + 1\<rparr>)"
  have mp: "model_part t = model_part (s\<lparr>nextId := nextId s + 1, objects := objects s @ [m]\<rparr>)"
    by (simp add: t_def addModelToWorld_def)
  have k: "fst ` set (bodyMap t) = insert (oid m) (fst ` set (bodyMap s))"
    by (simp add: t_def addModelToWorld_def materialize_keys)
  have i: "state_ids t = (map oid (objects s) @ [obj_name (nextId s)], links s, nextId s + 1, nextLinkId s)"
    and hi: "history t = history s" and ob: "objects t = objects s @ [m]"
    using mp o by (simp_all add: state_ids_def model_part_def)
  have "P (map oid (objects s), links s, nextId s, nextLinkId s)"
    using h by (simp add: holds_throughout_alt state_ids_def)
  then have "P (map oid (objects s) @ [obj_name (nextId s)], links s, nextId s + 1, nextLinkId s)"
    by (rule stableD(2) [OF st])
  then have "P (state_ids t)" by (simp only: i)
  then show ?thesis
    using h k unfolding t_def [symmetric] by (auto simp: holds_throughout_alt hi ob)
qed

lemma handleCanvasUp_holds:
  assumes "holds_throughout P s" "stable P"
  shows "holds_throughout P (handleCanvasUp c sh bt s)"
proof -
  define m where "m = fst (createModel c sh bt s)"
  have o: "oid m = obj_name (nextId s)" by (simp add: m_def createModel_def)
  have e: "handleCanvasUp c sh bt s =
      handleSelection (oid m) False (commitHistory (addModelToWorld m (s\<lparr>nextId := nextId s + 1\<rparr>)))"
    by (simp add: handleCanvasUp_def Let_def m_def createModel_def)
  have "holds_throughout P (commitHistory (addModelToWorld m (s\<lparr>nextId := nextId s + 1\<rparr>)))"
    by (rule commit_holds) (rule add_model_holds [OF assms o])
  then show ?thesis
    unfolding e using holds_throughout_view [OF ids_view_selection(1)] by blast
qed

lemma createLink_holds:
  assumes h: "holds_throughout P s" and st: "stable P"
  shows "holds_throughout P (createLink a b s)"
proof (cases "createLink a b s = s")
  case True
  with h show ?thesis by simp
next
  case False
  then obtain hA hB bodyA bodyB where
    m: "map_of (bodyMap s) a = Some hA" "map_of (bodyMap s) b = Some hB"
    and b: "heap_bodies s hA = Some bodyA" "heap_bodies s hB = Some bodyB"
    by (auto simp: createLink_def split: option.splits)
  define t where "t = createLink a b s"
  obtain opts where
    l: "links t = links s @ [\<lparr>lid = link_name (nextLinkId s), link_a = a, link_b = b, options = opts\<rparr>]"
    and r: "objects t = objects s" "nextId t = nextId s" "nextLinkId t = nextLinkId s + 1"
      "history t = history s" "bodyMap t = bodyMap s"
    unfolding t_def using m b
    by (simp add: createLink_def Let_def new_constraint_def world_add_constraint_def)
  have ka: "a \<in> fst ` set (bodyMap s)" "b \<in> fst ` set (bodyMap s)"
    using m by (metis domI dom_map_of_conv_image_fst)+
  then have ab: "a \<in> set (map oid (objects s))" "b \<in> set (map oid (objects s))"
    using h by (auto simp: holds_throughout_alt)
  have "P (map oid (objects s), links s, nextId s, nextLinkId s)"
    using h by (simp add: holds_throughout_alt state_ids_def)
  then have "P (map oid (objects s),
      links s @ [\<lparr>lid = link_name (nextLinkId s), link_a = a, link_b = b, options = opts\<rparr>],
      nextId s, nextLinkId s + 1)"
    using ab by (rule stableD(3) [OF st])
  then have "P (state_ids t)" by (simp add: state_ids_def l r)
  then show ?thesis
    using h unfolding t_def [symmetric] by (auto simp: holds_throughout_alt r)
qed

lemma handleConstraintPoint_holds:
  assumes h: "holds_throughout P s" and st: "stable P"
  shows "holds_throughout P (handleConstraintPoint clicked s)"
proof -
  have v: "holds_throughout P (t\<lparr>constraintAnchor := x, hint := y\<rparr>) = holds_throughout P t" for t x y
    by (rule holds_throughout_view) (simp add: ids_view_def state_ids_def)
  have v2: "holds_throughout P (t\<lparr>hint := y, constraintAnchor := x\<rparr>) = holds_throughout P t" for t x y
    by (rule holds_throughout_view) (simp add: ids_view_def state_ids_def)
  have v3: "holds_throughout P (t\<lparr>hint := y\<rparr>) = holds_throughout P t" for t y
    by (rule holds_throughout_view) (simp add: ids_view_def state_ids_def)
  have v4: "holds_throughout P (t\<lparr>constraintAnchor := x\<rparr>) = holds_throughout P t" for t x
    by (rule holds_throughout_view) (simp add: ids_view_def state_ids_def)
  have c: "holds_throughout P (commitHistory ((createLink a b s)\<lparr>constraintAnchor := None\<rparr>))" for a b
    by (rule commit_holds) (simp add: v4 createLink_holds [OF h st])
  show ?thesis
    using h by (simp add: handleConstraintPoint_def Let_def v v2 v3 v4 c split: option.splits)
qed

lemma fold_holds:
  assumes "\<And>x s. Q s \<Longrightarrow> Q (f x s)" and "Q s"
  shows "Q (fold f xs s)"
  using assms(2) by (induction xs arbitrary: s) (auto intro: assms(1))

lemma duplicate_step_holds:
  assumes "holds_throughout P s" "stable P"
  shows "holds_throughout P (snd (duplicate_step i (newIds, s)))"
proof (cases "find_model i (objects s)")
  case None
  with assms show ?thesis by (simp add: duplicate_step.simps)
next
  case (Some model)
  have "holds_throughout P (addModelToWorld (model\<lparr>oid := obj_name (nextId s),
      position := (fst (position model) + 20, snd (position model) - 20)\<rparr>) (s\<lparr>nextId := nextId s + 1\<rparr>))"
    by (rule add_model_holds [OF assms]) simp
  with Some show ?thesis by (simp add: duplicate_step.simps Let_def)
qed

lemma duplicate_fold_holds:
  assumes "stable P"
  shows "holds_throughout P s \<Longrightarrow> holds_throughout P (snd (fold duplicate_step xs (newIds, s)))"
proof (induction xs arbitrary: newIds s)
  case Nil
  then show ?case by simp
next
  case (Cons x xs)
  obtain ids' s' where d: "duplicate_step x (newIds, s) = (ids', s')"
    by (cases "duplicate_step x (newIds, s)")
  have "holds_throughout P s'"
    using duplicate_step_holds [OF Cons.prems assms, of x newIds] by (simp add: d)
  from Cons.IH [OF this, of ids'] show ?case by (simp add: d)
qed

lemma duplicateSelection_holds:
  assumes "holds_throughout P s" "stable P"
  shows "holds_throughout P (duplicateSelection s)"
proof -
  obtain newIds s1 where f: "fold duplicate_step (selectedIds s) ([], s) = (newIds, s1)"
    by (cases "fold duplicate_step (selectedIds s) ([], s)")
  have "holds_throughout P s1"
    using duplicate_fold_holds [OF assms(2) assms(1), of "selectedIds s" "[]"] by (simp add: f)
  then have c: "holds_throughout P (commitHistory s1)" by (rule commit_holds)
  have "holds_throughout P (handleSelection i False (commitHistory s1))" for i
    using c holds_throughout_view [OF ids_view_selection(1)] by blast
  with c assms(1) show ?thesis
    by (simp add: duplicateSelection_def f Let_def split: list.splits)
qed

lemma delete_step_holds:
  assumes h: "holds_throughout P s" and st: "stable P"
  shows "holds_throughout P (delete_step i s)"
proof -
  define s3 where "s3 = (let s1 = (case map_of (bodyMap s) i of
                 Some h \<Rightarrow> world_remove_body h s | None \<Rightarrow> s);
         s2 = s1\<lparr>bodyMap := AList.delete i (bodyMap s1)\<rparr>
     in s2\<lparr>objects := filter (\<lambda>m. oid m \<noteq> i) (objects s2)\<rparr>)"
  have s3: "links s3 = links s" "bodyMap s3 = AList.delete i (bodyMap s)"
    "objects s3 = filter (\<lambda>m. oid m \<noteq> i) (objects s)" "nextId s3 = nextId s"
    "nextLinkId s3 = nextLinkId s" "history s3 = history s"
    by (simp_all add: s3_def Let_def world_defs split: option.splits)
  define t where "t = delete_step i s"
  have t: "t = removeLinksFor i s3" by (simp add: t_def delete_step_def s3_def Let_def)
  from removeLinksFor_shape [of i s3] obtain lm wc where
    tt: "t = s3\<lparr>links := filter (\<lambda>l. \<not> touches i l) (links s3), linkMap := lm, world_constraints := wc\<rparr>"
    unfolding t by blast
  have r: "links t = filter (\<lambda>l. \<not> touches i l) (links s)" "bodyMap t = AList.delete i (bodyMap s)"
    "objects t = filter (\<lambda>m. oid m \<noteq> i) (objects s)" "nextId t = nextId s"
    "nextLinkId t = nextLinkId s" "history t = history s"
    by (simp_all add: tt s3)
  have "P (map oid (objects s), links s, nextId s, nextLinkId s)"
    using h by (simp add: holds_throughout_alt state_ids_def)
  then have "P (filter (\<lambda>j. j \<noteq> i) (map oid (objects s)), filter (\<lambda>l. \<not> touches i l) (links s),
       nextId s, nextLinkId s)"
    by (rule stableD(4) [OF st])
  then have p: "P (state_ids t)"
    by (simp add: state_ids_def r filter_map comp_def)
  have k: "fst ` set (bodyMap t) \<subseteq> set (map oid (objects t))"
  proof
    fix k assume a: "k \<in> fst ` set (bodyMap t)"
    then have "k \<in> fst ` set (bodyMap s)" using dom_delete_subset [of i "bodyMap s"] by (auto simp: r)
    moreover have "k \<noteq> i" using a delete_notin_dom [of i "bodyMap s"] by (auto simp: r)
    ultimately show "k \<in> set (map oid (objects t))"
      using h by (auto simp: holds_throughout_alt r)
  qed
  show ?thesis
    unfolding t_def [symmetric] using h p k by (simp add: holds_throughout_alt r)
qed

lemma deleteSelection_holds:
  assumes "holds_throughout P s" "stable P"
  shows "holds_throughout P (deleteSelection s)"
proof -
  have "holds_throughout P (fold delete_step (selectedIds s) s)"
  proof (rule fold_holds [where Q = "holds_throughout P"])
    show "holds_throughout P (delete_step x s)" if "holds_throughout P s" for x s
      using that assms(2) by (rule delete_step_holds)
    show "holds_throughout P s" by fact
  qed
  then have "holds_throughout P (clearSelection (fold delete_step (selectedIds s) s))"
    using holds_throughout_view [OF ids_view_selection(2)] by blast
  then have "holds_throughout P (commitHistory (clearSelection (fold delete_step (selectedIds s) s)))"
    by (rule commit_holds)
  with assms(1) show ?thesis by (simp add: deleteSelection_def)
qed

lemma model_part_fold_remove:
  "model_part (fold world_remove_body hs s) = model_part s"
  "model_part (fold world_remove_constraint hs s) = model_part s"
  by (rule fold_keeps, simp)+

lemma resetWorld_holds:
  assumes h: "holds_throughout P s" and st: "stable P"
  shows "holds_throughout P (resetWorld s)"
proof -
  define s2 where "s2 = (clearSelection s)\<lparr>objects := [], links := [], nextId := 1, nextLinkId := 1\<rparr>"
  define s5 where "s5 = (fold world_remove_constraint (map snd (linkMap (fold world_remove_body (map snd (bodyMap s2)) s2)))
      (fold world_remove_body (map snd (bodyMap s2)) s2))\<lparr>bodyMap := [], linkMap := []\<rparr>"
  have e: "resetWorld s = (commitHistory s5)\<lparr>hint := CleanSlate\<rparr>"
    by (simp add: resetWorld_def Let_def s2_def s5_def)
  have "model_part s5 = model_part s2"
    by (simp add: s5_def model_part_fold_remove)
  then have m: "objects s5 = []" "links s5 = []" "nextId s5 = 1" "nextLinkId s5 = 1" "history s5 = history s"
    by (simp_all add: model_part_def s2_def clearSelection_def)
  have b: "bodyMap s5 = []" by (simp add: s5_def)
  have "holds_throughout P s5"
    using h stableD(1) [OF st] by (simp add: holds_throughout_alt state_ids_def m b)
  then have "holds_throughout P (commitHistory s5)" by (rule commit_holds)
  then show ?thesis
    unfolding e using holds_throughout_view [OF ids_view_selection(6)] by blast
qed

lemma fold_materialize_keys:
  "fst ` set (bodyMap (fold materialize objs s)) = fst ` set (bodyMap s) \<union> oid ` set objs"
  by (induction objs arbitrary: s) (auto simp: materialize_keys)

lemma applySnapshot_keys:
  "fst ` set (bodyMap (applySnapshot snap s)) = oid ` set (s_objects snap)"
proof -
  define s1 where "s1 = s\<lparr>objects := s_objects snap, links := s_links snap, nextId := s_nextId snap,
                nextLinkId := (if s_nextLinkId snap \<noteq> 0 then s_nextLinkId snap
                               else inferNextLinkId (s_links snap)),
                selectedIds := []\<rparr>"
  define s2 where "s2 = fold world_remove_body (map snd (bodyMap s1)) s1"
  define s3 where "s3 = fold world_remove_constraint (map snd (linkMap s2)) s2"
  define s4 where "s4 = s3\<lparr>bodyMap := [], linkMap := []\<rparr>"
  define s5 where "s5 = fold materialize (objects s4) s4"
  have a: "applySnapshot snap s = fold attachLink (links s5) s5"
    by (simp add: applySnapshot_def Let_def s1_def s2_def s3_def s4_def s5_def)
  have "model_part s4 = model_part s1"
    by (simp add: s4_def s3_def s2_def model_part_fold_remove)
  then have o4: "objects s4 = s_objects snap"
    by (simp add: model_part_def s1_def)
  have "bodyMap (fold attachLink (links s5) s5) = bodyMap s5"
    by (rule fold_keeps) (simp add: attachLink_keeps)
  then show ?thesis
    unfolding a by (simp add: s5_def fold_materialize_keys o4) (simp add: s4_def)
qed

lemma applySnapshot_holds:
  assumes h: "holds_throughout P s" and st: "stable P" and p: "P (snap_ids snap)"
  shows "holds_throughout P (applySnapshot snap s)"
proof -
  have "P (map oid (s_objects snap), s_links snap, s_nextId snap,
      if s_nextLinkId snap \<noteq> 0 then s_nextLinkId snap else inferNext (map lid (s_links snap)))"
    using p unfolding snap_ids_def by (rule stableD(5) [OF st])
  then have "P (state_ids (applySnapshot snap s))"
    by (simp add: state_ids_def applySnapshot_model inferNextLinkId_def split: if_splits)
  then show ?thesis
    using h by (simp add: holds_throughout_alt applySnapshot_model applySnapshot_keys)
qed

lemma restore_at_holds:
  assumes h: "holds_throughout P s" and st: "stable P"
  shows "holds_throughout P (restore_at i s)"
proof (cases "0 \<le> i \<and> i < int (length (history s))")
  case True
  then have "nat i < length (history s)" by linarith
  then have "history s ! nat i \<in> set (history s)" by (rule nth_mem)
  then have p: "P (snap_ids (history s ! nat i))"
    using h by (simp add: holds_throughout_alt)
  have "holds_throughout P (s\<lparr>historyIndex := i\<rparr>)"
    using h holds_throughout_view [OF ids_view_selection(7)] by blast
  from applySnapshot_holds [OF this st p] True show ?thesis
    by (simp add: restore_at_def)
next
  case False
  then show ?thesis
    using h holds_throughout_view [OF ids_view_selection(7), of P i s] by (auto simp: restore_at_def)
qed

lemma undo_redo_hold:
  assumes "holds_throughout P s" "stable P"
  shows "holds_throughout P (undo s)" "holds_throughout P (redo s)"
  using assms restore_at_holds [OF assms] by (simp_all add: undo_def redo_def)

lemma or_else_one: "or_else v 1 \<noteq> 0"
  by (simp add: or_else_def split: option.splits)

lemma load_holds:
  assumes h: "holds_throughout P s" and st: "stable P"
    and d: "d_objects data = None \<or> P (doc_ids data)"
  shows "holds_throughout P (fst (loadScene data s))"
proof (cases "d_objects data")
  case None
  with h show ?thesis by (simp add: loadScene_def load_document_def)
next
  case (Some objs)
  define snap where "snap = \<lparr>s_objects = objs,
     s_links = (case d_links data of None \<Rightarrow> [] | Some l \<Rightarrow> l),
     s_nextId = or_else (d_nextId data) (inferNextId objs),
     s_nextLinkId = or_else (d_nextLinkId data) 1\<rparr>"
  have e: "fst (loadScene data s) = commitHistory (applySnapshot snap s)"
    by (simp add: loadScene_def load_document_def Some Let_def snap_def)
  have "snap_ids snap = doc_ids data"
    by (simp add: snap_ids_def snap_def doc_ids_def Some)
  with d Some have "P (snap_ids snap)" by simp
  from applySnapshot_holds [OF h st this] show ?thesis
    unfolding e by (rule commit_holds)
qed

lemma initial_holds:
  assumes "stable P"
  shows "holds_throughout P initial"
proof -
  have "holds_throughout P blank"
    using stableD(1) [OF assms] by (simp add: holds_throughout_alt state_ids_def blank_def)
  then have "holds_throughout P (commitHistory blank)" by (rule commit_holds)
  then show ?thesis
    unfolding initial_def using holds_throughout_view [OF ids_view_selection(6)] by blast
qed

lemma apply_op_holds:
  assumes "holds_throughout P s" "stable P" "loads_only P x"
  shows "holds_throughout P (apply_op x s)"
proof (cases x)
  case (LoadScene data)
  with assms(3) have "d_objects data = None \<or> P (doc_ids data)" by (simp add: loads_only_def)
  from load_holds [OF assms(1,2) this] LoadScene show ?thesis by simp
qed (simp_all add: assms handleCanvasUp_holds edit_ops_hold handleConstraintPoint_holds
    duplicateSelection_holds deleteSelection_holds resetWorld_holds undo_redo_hold)

lemma run_holds:
  assumes "stable P"
  shows "list_all (loads_only P) xs \<Longrightarrow> holds_throughout P s \<Longrightarrow> holds_throughout P (run xs s)"
proof (induction xs arbitrary: s)
  case Nil
  then show ?case by (simp add: run_def)
next
  case (Cons x xs)
  have "holds_throughout P (apply_op x s)"
    using Cons.prems by (intro apply_op_holds assms) simp_all
  from Cons.IH [OF _ this] Cons.prems(1) show ?case by (simp add: run_def)
qed

subsection \<open>The two properties and the counters\<close>

lemma stable_links_closed: "stable links_closed"
  unfolding stable_def links_closed_def
  by (auto simp: list_all_iff touches_def)

lemma upto_grow: "(1::int) \<le> n \<Longrightarrow> set [1..n + 1 - 1] = insert n (set [1..n - 1])"
  by auto

lemma stable_ids_numbered: "stable ids_numbered"
  unfolding stable_def
proof (intro conjI allI impI)
  show "ids_numbered ([], [], 1, 1)" by (simp add: ids_numbered_def)
next
  fix os ls n nl assume "ids_numbered (os, ls, n, nl)"
  then show "ids_numbered (os @ [obj_name n], ls, n + 1, nl)"
    by (auto simp: ids_numbered_def list_all_iff)
next
  fix os ls n nl a b opts
  assume "ids_numbered (os, ls, n, nl) \<and> a \<in> set os \<and> b \<in> set os"
  then show "ids_numbered (os, ls @ [\<lparr>lid = link_name nl, link_a = a, link_b = b, options = opts\<rparr>], n, nl + 1)"
    by (auto simp: ids_numbered_def list_all_iff)
next
  fix os ls n nl X assume "ids_numbered (os, ls, n, nl)"
  then show "ids_numbered (filter (\<lambda>i. i \<noteq> X) os, filter (\<lambda>l. \<not> touches X l) ls, n, nl)"
    by (auto simp: ids_numbered_def list_all_iff)
next
  fix os ls n nl assume "ids_numbered (os, ls, n, nl)"
  then show "ids_numbered (os, ls, n, if nl \<noteq> 0 then nl else inferNext (map lid ls))"
    by (auto simp: ids_numbered_def)
qed

lemma no_load_loads_only: "list_all (\<lambda>x. \<not> is_load x) xs \<Longrightarrow> list_all (loads_only P) xs"
  by (induction xs) (auto simp: is_load_def loads_only_def split: op.splits)

lemma view_counters:
  assumes "ids_view t = ids_view s"
  shows "nextId t = nextId s" "nextLinkId t = nextLinkId s"
  using assms by (simp_all add: ids_view_def state_ids_def)

lemma commit_fold_counters:
  assumes "\<And>x s. ids_view (f x s) = ids_view s"
  shows "nextId (commitHistory (fold f xs s)) = nextId s"
    "nextLinkId (commitHistory (fold f xs s)) = nextLinkId s"
  using view_counters [OF fold_view [of f xs s, OF assms]] by (simp_all add: commitHistory_keeps)

lemma edit_counters:
  "nextId (updatePhysics patch s) = nextId s \<and> nextLinkId (updatePhysics patch s) = nextLinkId s"
  "nextId (updateVisual vpatch s) = nextId s \<and> nextLinkId (updateVisual vpatch s) = nextLinkId s"
  "nextId (updateSelection bt s) = nextId s \<and> nextLinkId (updateSelection bt s) = nextLinkId s"
  "nextId (changeShape bounds ty s) = nextId s \<and> nextLinkId (changeShape bounds ty s) = nextLinkId s"
  "nextId (changePolygonSides n s) = nextId s \<and> nextLinkId (changePolygonSides n s) = nextLinkId s"
  "nextId (toggleLock lock s) = nextId s \<and> nextLinkId (toggleLock lock s) = nextLinkId s"
  "nextId (tick motion s) = nextId s \<and> nextLinkId (tick motion s) = nextLinkId s"
  "nextId (handleSelection i shift s) = nextId s \<and> nextLinkId (handleSelection i shift s) = nextLinkId s"
  "nextId (clearSelection s) = nextId s \<and> nextLinkId (clearSelection s) = nextLinkId s"
  "nextId (selectTool tool s) = nextId s \<and> nextLinkId (selectTool tool s) = nextLinkId s"
proof -
  have e: "ids_view (edit_model (\<lambda>m. m\<lparr>physics := merge_physics (physics m) patch\<rparr>) True x s) = ids_view s"
    "ids_view (edit_model (\<lambda>m. m\<lparr>visual := merge_visual (visual m) vpatch\<rparr>) False x s) = ids_view s"
    "ids_view (edit_model (\<lambda>m. m\<lparr>bodyType := bt\<rparr>) True x s) = ids_view s" for x s
    by (rule ids_view_edit_model, simp)+
  show "nextId (updatePhysics patch s) = nextId s \<and> nextLinkId (updatePhysics patch s) = nextLinkId s"
    by (simp add: updatePhysics_def commit_fold_counters [OF e(1)])
  show "nextId (updateVisual vpatch s) = nextId s \<and> nextLinkId (updateVisual vpatch s) = nextLinkId s"
    by (simp add: updateVisual_def commit_fold_counters [OF e(2)])
  show "nextId (updateSelection bt s) = nextId s \<and> nextLinkId (updateSelection bt s) = nextLinkId s"
    by (simp add: updateSelection_def commit_fold_counters [OF e(3)])
  show "nextId (changeShape bounds ty s) = nextId s \<and> nextLinkId (changeShape bounds ty s) = nextLinkId s"
    by (simp add: changeShape_def commit_fold_counters [OF ids_view_changeShape_step])
  show "nextId (changePolygonSides n s) = nextId s \<and> nextLinkId (changePolygonSides n s) = nextLinkId s"
    by (simp add: changePolygonSides_def commit_fold_counters [OF ids_view_changePolygonSides_step])
  show "nextId (toggleLock lock s) = nextId s \<and> nextLinkId (toggleLock lock s) = nextLinkId s"
    by (simp add: toggleLock_def commit_fold_counters [OF ids_view_toggleLock_step])
  show "nextId (tick motion s) = nextId s \<and> nextLinkId (tick motion s) = nextLinkId s"
    using view_counters [OF ids_view_tick] by simp
  show "nextId (handleSelection i shift s) = nextId s \<and> nextLinkId (handleSelection i shift s) = nextLinkId s"
    "nextId (clearSelection s) = nextId s \<and> nextLinkId (clearSelection s) = nextLinkId s"
    "nextId (selectTool tool s) = nextId s \<and> nextLinkId (selectTool tool s) = nextLinkId s"
    by (simp_all add: handleSelection_def clearSelection_def selectTool_def)
qed

lemma add_model_counters:
  "nextId (addModelToWorld m s) = nextId s" "nextLinkId (addModelToWorld m s) = nextLinkId s"
proof -
  have "model_part (addModelToWorld m s) = model_part (s\<lparr>objects := objects s @ [m]\<rparr>)"
    by (simp add: addModelToWorld_def)
  then show "nextId (addModelToWorld m s) = nextId s" "nextLinkId (addModelToWorld m s) = nextLinkId s"
    by (simp_all add: model_part_def)
qed

lemma handleCanvasUp_counters:
  "nextId (handleCanvasUp c sh bt s) = nextId s + 1"
  "nextLinkId (handleCanvasUp c sh bt s) = nextLinkId s"
  by (simp_all add: handleCanvasUp_def createModel_def Let_def handleSelection_def
      commitHistory_keeps add_model_counters)

lemma createLink_counters:
  "nextId (createLink a b s) = nextId s" "nextLinkId s \<le> nextLinkId (createLink a b s)"
  by (simp_all add: createLink_def Let_def new_constraint_def world_add_constraint_def
      split: option.splits)

lemma handleConstraintPoint_counters:
  "nextId (handleConstraintPoint clicked s) = nextId s"
  "nextLinkId s \<le> nextLinkId (handleConstraintPoint clicked s)"
  by (simp_all add: handleConstraintPoint_def Let_def commitHistory_keeps createLink_counters
      split: option.splits)

lemma duplicate_fold_counters:
  "nextId s \<le> nextId (snd (fold duplicate_step xs (newIds, s)))
   \<and> nextLinkId (snd (fold duplicate_step xs (newIds, s))) = nextLinkId s"
proof (induction xs arbitrary: newIds s)
  case Nil
  then show ?case by simp
next
  case (Cons x xs)
  obtain ids' s' where d: "duplicate_step x (newIds, s) = (ids', s')"
    by (cases "duplicate_step x (newIds, s)")
  have "nextId s \<le> nextId s' \<and> nextLinkId s' = nextLinkId s"
    using d by (auto simp: duplicate_step.simps Let_def add_model_counters split: option.splits)
  with Cons.IH [where s = s' and newIds = ids'] show ?case by (simp add: d)
qed

lemma duplicateSelection_counters:
  "nextId s \<le> nextId (duplicateSelection s)" "nextLinkId (duplicateSelection s) = nextLinkId s"
proof -
  obtain newIds s1 where f: "fold duplicate_step (selectedIds s) ([], s) = (newIds, s1)"
    by (cases "fold duplicate_step (selectedIds s) ([], s)")
  from duplicate_fold_counters [of s "selectedIds s" "[]"]
  have "nextId s \<le> nextId s1 \<and> nextLinkId s1 = nextLinkId s" by (simp add: f)
  then show "nextId s \<le> nextId (duplicateSelection s)" "nextLinkId (duplicateSelection s) = nextLinkId s"
    by (simp_all add: duplicateSelection_def f Let_def commitHistory_keeps handleSelection_def
        split: list.splits)
qed

lemma delete_step_counters:
  "nextId (delete_step i s) = nextId s \<and> nextLinkId (delete_step i s) = nextLinkId s"
proof -
  define s3 where "s3 = (let s1 = (case map_of (bodyMap s) i of
                 Some h \<Rightarrow> world_remove_body h s | None \<Rightarrow> s);
         s2 = s1\<lparr>bodyMap := AList.delete i (bodyMap s1)\<rparr>
     in s2\<lparr>objects := filter (\<lambda>m. oid m \<noteq> i) (objects s2)\<rparr>)"
  have s3: "nextId s3 = nextId s" "nextLinkId s3 = nextLinkId s"
    by (simp_all add: s3_def Let_def world_defs split: option.splits)
  have t: "delete_step i s = removeLinksFor i s3" by (simp add: delete_step_def s3_def Let_def)
  from removeLinksFor_shape [of i s3] obtain lm wc where
    "delete_step i s = s3\<lparr>links := filter (\<lambda>l. \<not> touches i l) (links s3), linkMap := lm, world_constraints := wc\<rparr>"
    unfolding t by blast
  then show ?thesis by (simp add: s3)
qed

lemma deleteSelection_counters:
  "nextId (deleteSelection s) = nextId s \<and> nextLinkId (deleteSelection s) = nextLinkId s"
proof -
  have "nextId (fold delete_step xs s) = nextId s \<and> nextLinkId (fold delete_step xs s) = nextLinkId s" for xs
    by (induction xs arbitrary: s) (simp_all add: delete_step_counters)
  then show ?thesis
    by (simp add: deleteSelection_def commitHistory_keeps clearSelection_def)
qed

lemma resetWorld_counters: "nextId (resetWorld s) = 1" "nextLinkId (resetWorld s) = 1"
proof -
  define s2 where "s2 = (clearSelection s)\<lparr>objects := [], links := [], nextId := 1, nextLinkId := 1\<rparr>"
  define s5 where "s5 = (fold world_remove_constraint (map snd (linkMap (fold world_remove_body (map snd (bodyMap s2)) s2)))
      (fold world_remove_body (map snd (bodyMap s2)) s2))\<lparr>bodyMap := [], linkMap := []\<rparr>"
  have e: "resetWorld s = (commitHistory s5)\<lparr>hint := CleanSlate\<rparr>"
    by (simp add: resetWorld_def Let_def s2_def s5_def)
  have "model_part s5 = model_part s2"
    by (simp add: s5_def model_part_fold_remove)
  then have "nextId s5 = 1" "nextLinkId s5 = 1"
    by (simp_all add: model_part_def s2_def)
  then show "nextId (resetWorld s) = 1" "nextLinkId (resetWorld s) = 1"
    by (simp_all add: e commitHistory_keeps)
qed

lemma apply_op_counters:
  assumes "keeps_counters x"
  shows "nextId s \<le> nextId (apply_op x s) \<and> nextLinkId s \<le> nextLinkId (apply_op x s)"
  using assms
  by (cases x)
    (simp_all add: keeps_counters_def edit_counters handleCanvasUp_counters
      handleConstraintPoint_counters duplicateSelection_counters deleteSelection_counters)

lemma numbered_objects:
  assumes "ids_numbered (state_ids s)"
  shows "1 \<le> nextId s" "1 \<le> nextLinkId s"
    "list_all (\<lambda>m. \<exists>k. 1 \<le> k \<and> k < nextId s \<and> oid m = obj_name k \<and> id_number (oid m) = Some k) (objects s)"
    "list_all (\<lambda>l. \<exists>k. 1 \<le> k \<and> k < nextLinkId s \<and> lid l = link_name k \<and> id_number (lid l) = Some k) (links s)"
proof -
  from assms show "1 \<le> nextId s" "1 \<le> nextLinkId s"
    by (simp_all add: ids_numbered_def state_ids_def)
  show "list_all (\<lambda>m. \<exists>k. 1 \<le> k \<and> k < nextId s \<and> oid m = obj_name k \<and> id_number (oid m) = Some k) (objects s)"
    unfolding list_all_iff
  proof
    fix m assume "m \<in> set (objects s)"
    with assms have "oid m \<in> obj_name ` {1..nextId s - 1}"
      by (simp add: ids_numbered_def state_ids_def list_all_iff)
    then obtain k where "1 \<le> k" "k \<le> nextId s - 1" "oid m = obj_name k"
      by auto
    then show "\<exists>k. 1 \<le> k \<and> k < nextId s \<and> oid m = obj_name k \<and> id_number (oid m) = Some k"
      by (intro exI [of _ k]) (simp add: id_number_obj_name)
  qed
  show "list_all (\<lambda>l. \<exists>k. 1 \<le> k \<and> k < nextLinkId s \<and> lid l = link_name k \<and> id_number (lid l) = Some k) (links s)"
    unfolding list_all_iff
  proof
    fix l assume "l \<in> set (links s)"
    with assms have "lid l \<in> link_name ` {1..nextLinkId s - 1}"
      by (simp add: ids_numbered_def state_ids_def list_all_iff)
    then obtain k where "1 \<le> k" "k \<le> nextLinkId s - 1" "lid l = link_name k"
      by auto
    then show "\<exists>k. 1 \<le> k \<and> k < nextLinkId s \<and> lid l = link_name k \<and> id_number (lid l) = Some k"
      by (intro exI [of _ k]) (simp add: id_number_link_name)
  qed
qed

lemma scene_linked_run:
  "run [circleA, rectB, ConstraintPoint (Some ''obj-1''), ConstraintPoint (Some ''obj-2''),
        Select ''obj-1'' False] initial = scene_linked"
  by (simp add: scene_linked_def scene_two_def run_def)

lemma scene_linked_counters: "nextId scene_linked = 3" "nextLinkId scene_linked = 2"
  "nextId scene_two = 3"
  by (simp_all add: scene_linked_def run_def handleConstraintPoint_def scene_two_eval createLink_def
     new_constraint_def world_add_constraint_def Let_def commitHistory_keeps handleSelection_def)
    (simp_all add: scene_two_def circleA_def rectB_def eval_defs)

section \<open>The engine side stays consistent\<close>

lemma engine_sound_alt:
  "engine_sound s =
    ((\<forall>(k, h) \<in> set (bodyMap s). h < next_handle s \<and> heap_bodies s h \<noteq> None)
     \<and> set (map oid (objects s)) \<subseteq> fst ` set (bodyMap s)
     \<and> distinct (world_constraints s)
     \<and> (\<forall>c \<in> set (world_constraints s). c < next_handle s))"
  by (auto simp: engine_sound_def handles_live_def constraints_listed_def list_all_iff
      map_of_eq_None_iff)

lemma engine_sound_view:
  "engine_view t = engine_view s \<Longrightarrow> engine_sound t = engine_sound s"
  unfolding engine_sound_alt engine_view_def by (auto simp: domIff dest: equalityD1 equalityD2)

lemma engine_viewI:
  "bodyMap t = bodyMap s \<Longrightarrow> dom (heap_bodies t) = dom (heap_bodies s) \<Longrightarrow>
   next_handle t = next_handle s \<Longrightarrow> world_constraints t = world_constraints s \<Longrightarrow>
   map oid (objects t) = map oid (objects s) \<Longrightarrow> engine_view t = engine_view s"
  by (simp add: engine_view_def)

lemma engine_view_simple [simp]:
  "engine_view (handleSelection i shift s) = engine_view s"
  "engine_view (clearSelection s) = engine_view s"
  "engine_view (selectTool tool s) = engine_view s"
  "engine_view (world_remove_body h s) = engine_view s"
  "engine_view (s\<lparr>hint := hn\<rparr>) = engine_view s"
  "engine_view (s\<lparr>historyIndex := ix\<rparr>) = engine_view s"
  "engine_view (s\<lparr>constraintAnchor := a\<rparr>) = engine_view s"
  "engine_view (s\<lparr>nextId := n\<rparr>) = engine_view s"
  "engine_view (s\<lparr>selectedIds := sel\<rparr>) = engine_view s"
  by (simp_all add: engine_view_def handleSelection_def clearSelection_def selectTool_def world_defs)

lemma engine_view_sync [simp]: "engine_view (syncModelTransforms s) = engine_view s"
  by (simp add: engine_view_def syncModelTransforms_def map_oid_sync [unfolded map_map])

lemma engine_view_commit [simp]: "engine_view (commitHistory s) = engine_view s"
  by (simp add: engine_view_def commitHistory_keeps)

lemma engine_view_tick [simp]: "engine_view (tick motion s) = engine_view s"
proof -
  have "dom (\<lambda>h. if h \<in> set (world_bodies s) then map_option (move_body (motion h)) (heap_bodies s h)
       else heap_bodies s h) = dom (heap_bodies s)"
    by (auto simp: dom_def split: if_splits)
  then show ?thesis
    by (simp add: tick_def) (simp add: engine_view_def)
qed

lemma engine_view_toggleLock_step [simp]: "engine_view (toggleLock_step lock i s) = engine_view s"
proof -
  have d: "dom ((heap_bodies s)(h \<mapsto> b)) = dom (heap_bodies s)" if "heap_bodies s h = Some b'" for h b b'
    using that by auto
  show ?thesis
    by (auto simp: toggleLock_step_def Let_def engine_view_def map_oid_assign_model d
        split: option.splits)
qed


lemma attachLink_engine:
  assumes "engine_sound s"
  shows "engine_sound (attachLink l s)" "next_handle s \<le> next_handle (attachLink l s)"
  using assms
  by (auto simp: engine_sound_alt attachLink_def world_defs Let_def less_Suc_eq
      split: option.splits)

lemma remove_constraint_engine:
  "engine_sound s \<Longrightarrow> engine_sound (world_remove_constraint c s)"
  by (auto simp: engine_sound_alt world_defs dest: notin_set_remove1)

lemma refreshLink_engine:
  "engine_sound s \<Longrightarrow> engine_sound (refreshLink i l s)"
  by (simp add: refreshLink_def attachLink_engine remove_constraint_engine split: option.splits)

lemma refreshLinksFor_engine:
  "engine_sound s \<Longrightarrow> engine_sound (refreshLinksFor i s)"
  unfolding refreshLinksFor_def
  by (rule fold_holds [where Q = engine_sound]) (rule refreshLink_engine)

lemma materialize_engine:
  assumes "engine_sound s"
  shows "engine_sound (materialize m s)"
proof -
  have bm: "bodyMap (materialize m s) = AList.update (oid m) (next_handle s) (bodyMap s)"
    and hp: "heap_bodies (materialize m s) = (heap_bodies s)(next_handle s \<mapsto> buildBody m)"
    and nh: "next_handle (materialize m s) = Suc (next_handle s)"
    and ob: "objects (materialize m s) = objects s"
    and wc: "world_constraints (materialize m s) = world_constraints s"
    by (simp_all add: materialize_def world_defs Let_def)
  show ?thesis
    using assms unfolding engine_sound_alt bm hp nh ob wc
    by (auto simp: dom_update less_Suc_eq dest!: update_entries)
qed

lemma addModelToWorld_engine:
  assumes "engine_sound s"
  shows "engine_sound (addModelToWorld m s)"
proof -
  have bm: "bodyMap (addModelToWorld m s) = AList.update (oid m) (next_handle s) (bodyMap s)"
    and hp: "heap_bodies (addModelToWorld m s) = (heap_bodies s)(next_handle s \<mapsto> buildBody m)"
    and nh: "next_handle (addModelToWorld m s) = Suc (next_handle s)"
    and ob: "objects (addModelToWorld m s) = objects s @ [m]"
    and wc: "world_constraints (addModelToWorld m s) = world_constraints s"
    by (simp_all add: addModelToWorld_def materialize_def world_defs Let_def)
  show ?thesis
    using assms unfolding engine_sound_alt bm hp nh ob wc
    by (auto simp: dom_update less_Suc_eq dest!: update_entries)
qed

lemma rebuildBody_engine:
  assumes "engine_sound s"
  shows "engine_sound (rebuildBody m s)"
proof (cases "map_of (bodyMap s) (oid m)")
  case None
  with assms show ?thesis by (simp add: rebuildBody_def)
next
  case (Some existing)
  show ?thesis
  proof (cases "heap_bodies s existing")
    case None
    with Some assms show ?thesis by (simp add: rebuildBody_def)
  next
    case (Some old)
    define s8 where "s8 = (let s1 = world_remove_body existing s;
                 (h, s2) = new_body (buildBody m) s1;
                 s3 = Body_setPosition h (b_position old) s2;
                 s4 = Body_setVelocity h (b_velocity old) s3;
                 s5 = Body_setAngularVelocity h (b_angularVelocity old) s4;
                 s6 = Body_setAngle h (b_angle old) s5;
                 s7 = world_add_body h s6
             in s7\<lparr>bodyMap := AList.update (oid m) h (bodyMap s7)\<rparr>)"
    have e: "rebuildBody m s = refreshLinksFor (oid m) s8"
      using Some \<open>map_of (bodyMap s) (oid m) = Some existing\<close>
      by (simp add: rebuildBody_def s8_def Let_def new_body_def)
    have bm: "bodyMap s8 = AList.update (oid m) (next_handle s) (bodyMap s)"
      and nh: "next_handle s8 = Suc (next_handle s)"
      and ob: "objects s8 = objects s"
      and wc: "world_constraints s8 = world_constraints s"
      and hp: "\<And>h. h \<noteq> next_handle s \<Longrightarrow> heap_bodies s8 h = heap_bodies s h"
        "heap_bodies s8 (next_handle s) \<noteq> None"
      by (simp_all add: s8_def world_defs Let_def)
    have "engine_sound s8"
      using assms hp(2) unfolding engine_sound_alt bm nh ob wc
      by (auto simp: dom_update less_Suc_eq hp(1) dest!: update_entries)
    then show ?thesis unfolding e by (rule refreshLinksFor_engine)
  qed
qed

lemma engine_sound_objects:
  "map oid objs = map oid (objects s) \<Longrightarrow> engine_sound (s\<lparr>objects := objs\<rparr>) = engine_sound s"
  by (rule engine_sound_view) (simp add: engine_view_def)

lemma edit_model_engine:
  assumes "engine_sound s" "\<And>m. oid (f m) = oid m"
  shows "engine_sound (edit_model f rebuild i s)"
  using assms(1)
  by (simp add: edit_model_def Let_def rebuildBody_engine engine_sound_objects
      map_oid_assign_model assms(2) split: option.splits)

lemma changeShape_step_engine:
  "engine_sound s \<Longrightarrow> engine_sound (changeShape_step bounds ty i s)"
  by (simp add: changeShape_step_def Let_def rebuildBody_engine engine_sound_objects
      map_oid_assign_model split: option.splits prod.splits)

lemma changePolygonSides_step_engine:
  "engine_sound s \<Longrightarrow> engine_sound (changePolygonSides_step n i s)"
proof -
  have "oid (set_sides n m) = oid m" for m
    by (simp add: set_sides_def split: shape.splits)
  then show "engine_sound s \<Longrightarrow> engine_sound (changePolygonSides_step n i s)"
    by (simp add: changePolygonSides_step_def edit_model_engine split: option.splits)
qed

lemma commit_engine: "engine_sound (commitHistory s) = engine_sound s"
  by (rule engine_sound_view) simp

lemma fold_commit_engine:
  assumes "engine_sound s" "\<And>x s. engine_sound s \<Longrightarrow> engine_sound (f x s)"
  shows "engine_sound (commitHistory (fold f xs s))"
  unfolding commit_engine by (rule fold_holds [where Q = engine_sound]) (rule assms(2), assumption, rule assms(1))

lemma edit_ops_engine:
  assumes "engine_sound s"
  shows "engine_sound (updatePhysics patch s)"
    "engine_sound (updateVisual vpatch s)"
    "engine_sound (updateSelection bt s)"
    "engine_sound (changeShape bounds ty s)"
    "engine_sound (changePolygonSides n s)"
    "engine_sound (toggleLock lock s)"
    "engine_sound (tick motion s)"
    "engine_sound (handleSelection i shift s)"
    "engine_sound (clearSelection s)"
    "engine_sound (selectTool tool s)"
proof -
  show "engine_sound (updatePhysics patch s)"
    unfolding updatePhysics_def using assms
    by (auto intro!: fold_commit_engine edit_model_engine)
  show "engine_sound (updateVisual vpatch s)"
    unfolding updateVisual_def using assms
    by (auto intro!: fold_commit_engine edit_model_engine)
  show "engine_sound (updateSelection bt s)"
    unfolding updateSelection_def using assms
    by (auto intro!: fold_commit_engine edit_model_engine)
  show "engine_sound (changeShape bounds ty s)"
    unfolding changeShape_def using assms
    by (auto intro!: fold_commit_engine changeShape_step_engine)
  show "engine_sound (changePolygonSides n s)"
    unfolding changePolygonSides_def using assms
    by (auto intro!: fold_commit_engine changePolygonSides_step_engine)
  show "engine_sound (toggleLock lock s)"
    unfolding toggleLock_def
  proof (rule fold_commit_engine [OF assms])
    show "engine_sound (toggleLock_step lock x s)" if "engine_sound s" for x s
      using that engine_sound_view [OF engine_view_toggleLock_step, of lock x s] by blast
  qed
  show "engine_sound (tick motion s)" "engine_sound (handleSelection i shift s)"
    "engine_sound (clearSelection s)" "engine_sound (selectTool tool s)"
    using assms engine_sound_view [OF engine_view_tick, of motion s]
      engine_sound_view [OF engine_view_simple(1), of i shift s]
      engine_sound_view [OF engine_view_simple(2), of s]
      engine_sound_view [OF engine_view_simple(3), of tool s]
    by blast+
qed

lemma engine_sound_upd [simp]:
  "engine_sound (s\<lparr>hint := hn\<rparr>) = engine_sound s"
  "engine_sound (s\<lparr>historyIndex := ix\<rparr>) = engine_sound s"
  "engine_sound (s\<lparr>constraintAnchor := a\<rparr>) = engine_sound s"
  "engine_sound (s\<lparr>nextId := n\<rparr>) = engine_sound s"
  "engine_sound (s\<lparr>selectedIds := sel\<rparr>) = engine_sound s"
  "engine_sound (handleSelection i shift s) = engine_sound s"
  "engine_sound (clearSelection s) = engine_sound s"
  "engine_sound (world_remove_body h s) = engine_sound s"
  by (rule engine_sound_view, simp)+

lemma handleCanvasUp_engine:
  "engine_sound s \<Longrightarrow> engine_sound (handleCanvasUp c sh bt s)"
  by (simp add: handleCanvasUp_def createModel_def Let_def commit_engine addModelToWorld_engine)

lemma createLink_engine:
  "engine_sound s \<Longrightarrow> engine_sound (createLink a b s)"
  by (auto simp: engine_sound_alt createLink_def world_defs Let_def less_Suc_eq
      split: option.splits)

lemma handleConstraintPoint_engine:
  "engine_sound s \<Longrightarrow> engine_sound (handleConstraintPoint clicked s)"
  by (simp add: handleConstraintPoint_def Let_def commit_engine createLink_engine
      split: option.splits)

lemma duplicate_fold_engine:
  "engine_sound s \<Longrightarrow> engine_sound (snd (fold duplicate_step xs (newIds, s)))"
proof (induction xs arbitrary: newIds s)
  case Nil
  then show ?case by simp
next
  case (Cons x xs)
  obtain ids' s' where d: "duplicate_step x (newIds, s) = (ids', s')"
    by (cases "duplicate_step x (newIds, s)")
  have "engine_sound s'"
    using d Cons.prems
    by (auto simp: duplicate_step.simps Let_def addModelToWorld_engine split: option.splits)
  from Cons.IH [OF this, of ids'] show ?case by (simp add: d)
qed

lemma duplicateSelection_engine:
  assumes "engine_sound s"
  shows "engine_sound (duplicateSelection s)"
proof -
  obtain newIds s1 where f: "fold duplicate_step (selectedIds s) ([], s) = (newIds, s1)"
    by (cases "fold duplicate_step (selectedIds s) ([], s)")
  have "engine_sound s1"
    using duplicate_fold_engine [OF assms, of "selectedIds s" "[]"] by (simp add: f)
  with assms show ?thesis
    by (simp add: duplicateSelection_def f Let_def commit_engine split: list.splits)
qed

lemma delete_key_stays: "k \<noteq> i \<Longrightarrow> k \<in> fst ` set al \<Longrightarrow> k \<in> fst ` set (AList.delete i al)"
  by (induction al) auto

lemma delete_step_engine:
  assumes "engine_sound s"
  shows "engine_sound (delete_step i s)"
proof -
  define s3 where "s3 = (let s1 = (case map_of (bodyMap s) i of
                 Some h \<Rightarrow> world_remove_body h s | None \<Rightarrow> s);
         s2 = s1\<lparr>bodyMap := AList.delete i (bodyMap s1)\<rparr>
     in s2\<lparr>objects := filter (\<lambda>m. oid m \<noteq> i) (objects s2)\<rparr>)"
  have s3: "bodyMap s3 = AList.delete i (bodyMap s)"
    "objects s3 = filter (\<lambda>m. oid m \<noteq> i) (objects s)" "next_handle s3 = next_handle s"
    "heap_bodies s3 = heap_bodies s" "world_constraints s3 = world_constraints s"
    by (simp_all add: s3_def Let_def world_defs split: option.splits)
  have t: "delete_step i s = removeLinksFor i s3" by (simp add: delete_step_def s3_def Let_def)
  from removeLinksFor_shape [of i s3] obtain lm wc where
    tt: "delete_step i s = s3\<lparr>links := filter (\<lambda>l. \<not> touches i l) (links s3), linkMap := lm, world_constraints := wc\<rparr>"
    unfolding t by blast
  have r: "bodyMap (delete_step i s) = AList.delete i (bodyMap s)"
    "objects (delete_step i s) = filter (\<lambda>m. oid m \<noteq> i) (objects s)"
    "next_handle (delete_step i s) = next_handle s"
    "heap_bodies (delete_step i s) = heap_bodies s"
    by (simp_all add: tt s3)
  have d: "distinct (world_constraints s)" using assms by (simp add: engine_sound_alt)
  from removeLinksFor_maps [of i s3, folded t, unfolded s3] d
  have w: "distinct (world_constraints (delete_step i s))"
    "set (world_constraints (delete_step i s)) \<subseteq> set (world_constraints s)"
    by auto
  have sub: "set (AList.delete i (bodyMap s)) \<subseteq> set (bodyMap s)"
    by (auto simp: AList.delete_eq)
  have k: "oid m \<in> fst ` set (AList.delete i (bodyMap s))"
    if "m \<in> set (objects s)" "oid m \<noteq> i" for m
  proof (rule delete_key_stays [OF that(2)])
    show "oid m \<in> fst ` set (bodyMap s)"
      using assms that(1) by (auto simp: engine_sound_alt)
  qed
  show ?thesis
    using assms w sub k unfolding engine_sound_alt r
    by auto
qed

lemma deleteSelection_engine:
  assumes "engine_sound s"
  shows "engine_sound (deleteSelection s)"
proof -
  have "engine_sound (fold delete_step (selectedIds s) s)"
    by (rule fold_holds [where Q = engine_sound]) (rule delete_step_engine, assumption, rule assms)
  with assms show ?thesis by (simp add: deleteSelection_def commit_engine)
qed

lemma fold_remove_constraints:
  "distinct (world_constraints s) \<Longrightarrow>
     distinct (world_constraints (fold world_remove_constraint cs s))
   \<and> set (world_constraints (fold world_remove_constraint cs s)) \<subseteq> set (world_constraints s)
   \<and> next_handle (fold world_remove_constraint cs s) = next_handle s"
proof (induction cs arbitrary: s)
  case Nil
  then show ?case by simp
next
  case (Cons c cs)
  have "distinct (world_constraints (world_remove_constraint c s))"
    using Cons.prems by (simp add: world_defs)
  note ih = Cons.IH [OF this]
  have sub: "set (world_constraints (world_remove_constraint c s)) \<subseteq> set (world_constraints s)"
    using set_remove1_subset [of c "world_constraints s"] by (simp add: world_defs)
  have nh: "next_handle (world_remove_constraint c s) = next_handle s"
    by (simp add: world_defs)
  have e: "fold world_remove_constraint (c # cs) s = fold world_remove_constraint cs (world_remove_constraint c s)"
    by simp
  show ?case unfolding e using ih sub nh by auto
qed

lemma fold_remove_bodies:
  "world_constraints (fold world_remove_body hs s) = world_constraints s"
  "next_handle (fold world_remove_body hs s) = next_handle s"
  by (rule fold_keeps, simp add: world_defs)+

lemma materialize_pieces:
  assumes "handles_live s \<and> constraints_listed s"
  shows "handles_live (materialize m s) \<and> constraints_listed (materialize m s)"
proof -
  have bm: "bodyMap (materialize m s) = AList.update (oid m) (next_handle s) (bodyMap s)"
    and hp: "heap_bodies (materialize m s) = (heap_bodies s)(next_handle s \<mapsto> buildBody m)"
    and nh: "next_handle (materialize m s) = Suc (next_handle s)"
    and wc: "world_constraints (materialize m s) = world_constraints s"
    by (simp_all add: materialize_def world_defs Let_def)
  show ?thesis
    using assms unfolding handles_live_def constraints_listed_def list_all_iff bm hp nh wc
    by (auto simp: less_Suc_eq dest!: update_entries)
qed

lemma fold_attach_engine:
  "engine_sound s \<Longrightarrow> engine_sound (fold attachLink ls s)"
  by (rule fold_holds [where Q = engine_sound]) (rule attachLink_engine(1))

text \<open>Clearing the maps: sound whenever the constraints of the world are.\<close>

lemma cleared_engine:
  assumes "engine_sound s"
  shows "constraints_listed
    (fold world_remove_constraint (map snd (linkMap (fold world_remove_body hs s)))
      (fold world_remove_body hs s))"
proof -
  define s2 where "s2 = fold world_remove_body hs s"
  have a: "distinct (world_constraints s2)" "\<forall>c \<in> set (world_constraints s2). c < next_handle s2"
    using assms by (simp_all add: s2_def fold_remove_bodies engine_sound_alt)
  from fold_remove_constraints [OF a(1), of "map snd (linkMap s2)"] a(2)
  show ?thesis
    unfolding s2_def [symmetric] constraints_listed_def list_all_iff by auto
qed

lemma resetWorld_engine:
  assumes "engine_sound s"
  shows "engine_sound (resetWorld s)"
proof -
  define s2 where "s2 = (clearSelection s)\<lparr>objects := [], links := [], nextId := 1, nextLinkId := 1\<rparr>"
  define s4 where "s4 = fold world_remove_constraint (map snd (linkMap (fold world_remove_body (map snd (bodyMap s2)) s2)))
      (fold world_remove_body (map snd (bodyMap s2)) s2)"
  define s5 where "s5 = s4\<lparr>bodyMap := [], linkMap := []\<rparr>"
  have e: "resetWorld s = (commitHistory s5)\<lparr>hint := CleanSlate\<rparr>"
    by (simp add: resetWorld_def Let_def s2_def s4_def s5_def)
  have "engine_sound s2"
    using assms unfolding s2_def
    by (simp add: engine_sound_alt clearSelection_def)
  then have c: "constraints_listed s4" unfolding s4_def by (rule cleared_engine)
  have "model_part s4 = model_part s2"
    by (simp add: s4_def model_part_fold_remove)
  then have o: "objects s4 = []" by (simp add: model_part_def s2_def)
  have "engine_sound s5"
    using c o by (simp add: engine_sound_def handles_live_def constraints_listed_def s5_def)
  then show ?thesis by (simp add: e commit_engine)
qed

lemma applySnapshot_engine:
  assumes "engine_sound s"
  shows "engine_sound (applySnapshot snap s)"
proof -
  define s1 where "s1 = s\<lparr>objects := s_objects snap, links := s_links snap, nextId := s_nextId snap,
                nextLinkId := (if s_nextLinkId snap \<noteq> 0 then s_nextLinkId snap
                               else inferNextLinkId (s_links snap)),
                selectedIds := []\<rparr>"
  define s3 where "s3 = fold world_remove_constraint (map snd (linkMap (fold world_remove_body (map snd (bodyMap s1)) s1)))
      (fold world_remove_body (map snd (bodyMap s1)) s1)"
  define s4 where "s4 = s3\<lparr>bodyMap := [], linkMap := []\<rparr>"
  define s5 where "s5 = fold materialize (objects s4) s4"
  have a: "applySnapshot snap s = fold attachLink (links s5) s5"
    by (simp add: applySnapshot_def Let_def s1_def s3_def s4_def s5_def)
  have h1: "handles_live s1 \<and> constraints_listed s1"
    using assms by (simp add: engine_sound_def handles_live_def constraints_listed_def s1_def)
  have c1: "distinct (world_constraints s1)" "\<forall>c \<in> set (world_constraints s1). c < next_handle s1"
    using h1 by (simp_all add: constraints_listed_def list_all_iff)
  define s2 where "s2 = fold world_remove_body (map snd (bodyMap s1)) s1"
  have a2: "distinct (world_constraints s2)" "\<forall>c \<in> set (world_constraints s2). c < next_handle s2"
    using c1 by (simp_all add: s2_def fold_remove_bodies)
  from fold_remove_constraints [OF a2(1), of "map snd (linkMap s2)"] a2(2)
  have c3: "constraints_listed s3"
    unfolding s3_def s2_def [symmetric] constraints_listed_def list_all_iff by auto
  have "model_part s3 = model_part s1"
    by (simp add: s3_def model_part_fold_remove)
  then have o4: "objects s4 = s_objects snap"
    by (simp add: model_part_def s1_def s4_def)
  have k5: "fst ` set (bodyMap s5) = oid ` set (s_objects snap)"
    by (simp add: s5_def fold_materialize_keys o4) (simp add: s4_def)
  have o5: "objects s5 = s_objects snap"
    using model_partD(1) [of s5 s4] unfolding s5_def o4 [symmetric]
    by (simp add: fold_keeps [where g = model_part])
  have p4: "handles_live s4 \<and> constraints_listed s4"
    using c3 by (simp add: handles_live_def constraints_listed_def s4_def)
  have "handles_live s5 \<and> constraints_listed s5"
    unfolding s5_def
    by (rule fold_holds [where Q = "\<lambda>s. handles_live s \<and> constraints_listed s"])
      (rule materialize_pieces, assumption, rule p4)
  then have "engine_sound s5"
    using k5 by (auto simp: engine_sound_def list_all_iff map_of_eq_None_iff o5)
  then show ?thesis unfolding a by (rule fold_attach_engine)
qed

lemma restore_at_engine: "engine_sound s \<Longrightarrow> engine_sound (restore_at i s)"
  by (simp add: restore_at_def applySnapshot_engine)

lemma load_engine: "engine_sound s \<Longrightarrow> engine_sound (fst (loadScene data s))"
  by (simp add: loadScene_def load_document_def Let_def commit_engine applySnapshot_engine
      split: option.splits)

lemma apply_op_engine: "engine_sound s \<Longrightarrow> engine_sound (apply_op x s)"
  by (cases x)
    (simp_all add: handleCanvasUp_engine edit_ops_engine handleConstraintPoint_engine
      duplicateSelection_engine deleteSelection_engine resetWorld_engine undo_def redo_def
      restore_at_engine load_engine del: engine_sound_upd)

lemma initial_engine: "engine_sound initial"
proof -
  have "engine_sound blank"
    by (simp add: engine_sound_def handles_live_def constraints_listed_def blank_def)
  then show ?thesis by (simp add: initial_def commit_engine)
qed

lemma run_engine: "engine_sound (run xs initial)"
proof -
  have "engine_sound s \<Longrightarrow> engine_sound (run xs s)" for s
    unfolding run_def by (rule fold_holds [where Q = engine_sound]) (rule apply_op_engine)
  from this [OF initial_engine] show ?thesis .
qed

lemma reachable_handles:
  assumes "map_of (bodyMap (run xs initial)) i = Some h"
  shows "h < next_handle (run xs initial)" "\<exists>b. heap_bodies (run xs initial) h = Some b"
  using run_engine [of xs] map_of_SomeD [OF assms]
  by (auto simp: engine_sound_alt)

lemma reachable_bodies:
  assumes "m \<in> set (objects (run xs initial))"
  shows "\<exists>h b. map_of (bodyMap (run xs initial)) (oid m) = Some h \<and> heap_bodies (run xs initial) h = Some b"
proof -
  from run_engine [of xs] assms have "map_of (bodyMap (run xs initial)) (oid m) \<noteq> None"
    by (simp add: engine_sound_def list_all_iff)
  then obtain h where h: "map_of (bodyMap (run xs initial)) (oid m) = Some h" by auto
  from reachable_handles(2) [OF h] h show ?thesis by blast
qed

lemma scene_runs:
  "scene_two = run [circleA, rectB] initial"
  "scene_moving = run [circleA, rectB, Tick drift] initial"
  "scene_linked = run [circleA, rectB, ConstraintPoint (Some ''obj-1''),
     ConstraintPoint (Some ''obj-2''), Select ''obj-1'' False] initial"
  by (simp_all add: scene_two_def scene_moving_def scene_linked_def run_def)

section \<open>C1: rebuilding keeps the kinematic state\<close>

text \<open>
  Claim C1. When \<open>rebuildBody\<close> is called for a model whose id has a live body, it reads the
  body's position, velocity, angle and angular velocity, removes the body from the world,
  builds a new body from the (updated) model under a fresh handle, writes the four values
  read onto it, adds it to the world and records it in \<open>bodyMap\<close>. The new body therefore
  has exactly the kinematic state of the old one and every other property from the model.
  In every reachable state the old handle is below the allocation counter, so the new
  handle differs from it. Numbers are reals here, so the equality is exact.
\<close>

theorem rebuildBody_keeps_kinematics:
  assumes "map_of (bodyMap s) (oid model) = Some existing"
    and "heap_bodies s existing = Some old"
  shows "(let s' = rebuildBody model s; h = next_handle s
         in map_of (bodyMap s') (oid model) = Some h
          \<and> heap_bodies s' h = Some ((buildBody model)\<lparr>b_position := b_position old,
                b_velocity := b_velocity old, b_angularVelocity := b_angularVelocity old,
                b_angle := b_angle old\<rparr>)
          \<and> world_bodies s' = remove1 existing (world_bodies s) @ [h]
          \<and> (existing < next_handle s \<longrightarrow> h \<noteq> existing \<and> heap_bodies s' existing = Some old))
       \<and> (s = run xs initial \<longrightarrow> existing < next_handle s)"
proof
  show "let s' = rebuildBody model s; h = next_handle s
         in map_of (bodyMap s') (oid model) = Some h
          \<and> heap_bodies s' h = Some ((buildBody model)\<lparr>b_position := b_position old,
                b_velocity := b_velocity old, b_angularVelocity := b_angularVelocity old,
                b_angle := b_angle old\<rparr>)
          \<and> world_bodies s' = remove1 existing (world_bodies s) @ [h]
          \<and> (existing < next_handle s \<longrightarrow> h \<noteq> existing \<and> heap_bodies s' existing = Some old)"
    using assms by (rule rebuildBody_effect)
  show "s = run xs initial \<longrightarrow> existing < next_handle s"
    using assms(1) reachable_handles(1) by blast
qed

theorem rebuildBody_keeps_kinematics_witness:
  "scene_moving = run [circleA, rectB, Tick drift] initial
   \<and> map_of (bodyMap scene_moving) (oid squareA) = Some 0
   \<and> map_of (bodyMap (rebuildBody squareA scene_moving)) ''obj-1'' = Some 2
   \<and> heap_bodies (rebuildBody squareA scene_moving) 2 =
       Some \<lparr>b_position = (10, 20), b_velocity = (1, 2), b_angle = 1 / 2,
         b_angularVelocity = 1 / 4, b_geometry = Rectangle 40 40, b_material = DEFAULT_PHYSICS,
         b_isStatic = False, b_isSensor = False, plugin_modelId = ''obj-1'', plugin_locked = False\<rparr>
   \<and> world_bodies (rebuildBody squareA scene_moving) = [1, 2]
   \<and> 0 < next_handle scene_moving"
proof -
  have a: "map_of (bodyMap scene_moving) (oid squareA) = Some 0"
    by (simp add: scene_moving_eval squareA_def)
  note w = rebuildBody_keeps_kinematics [OF a scene_moving_eval(2), of "[circleA, rectB, Tick drift]"]
  from w [THEN conjunct2] scene_runs(2) have "0 < next_handle scene_moving" by blast
  with w [THEN conjunct1] a scene_runs(2) show ?thesis
    by (simp add: Let_def scene_moving_eval squareA_def buildBody_def body_geometry_def)
qed

section \<open>C2: the id counters\<close>

text \<open>
  Claim C2, as the code has it. In every state reached from the initial state by operations
  other than a scene load, both counters are at least 1, every object of the scene has an id
  \<open>obj-<k>\<close> whose number \<open>k\<close> is below \<open>nextId\<close>, every link has an id \<open>link-<k>\<close> whose
  number is below \<open>nextLinkId\<close>, and the same holds inside every snapshot of the history.
  No operation other than \<open>resetWorld\<close>, undo, redo and scene load ever lowers a counter;
  \<open>resetWorld\<close> sets both back to 1 (undo, redo and load set them from the snapshot or the
  document).
\<close>

theorem counters_exceed_present_ids:
  "(list_all (\<lambda>x. \<not> is_load x) xs \<longrightarrow>
      1 \<le> nextId (run xs initial) \<and> 1 \<le> nextLinkId (run xs initial)
    \<and> list_all (\<lambda>m. \<exists>k. 1 \<le> k \<and> k < nextId (run xs initial) \<and> oid m = obj_name k
                      \<and> id_number (oid m) = Some k) (objects (run xs initial))
    \<and> list_all (\<lambda>l. \<exists>k. 1 \<le> k \<and> k < nextLinkId (run xs initial) \<and> lid l = link_name k
                      \<and> id_number (lid l) = Some k) (links (run xs initial))
    \<and> list_all (\<lambda>snap. ids_numbered (snap_ids snap)) (history (run xs initial)))
 \<and> (keeps_counters x \<longrightarrow>
      nextId t \<le> nextId (apply_op x t) \<and> nextLinkId t \<le> nextLinkId (apply_op x t))
 \<and> nextId (resetWorld t) = 1 \<and> nextLinkId (resetWorld t) = 1"
proof (intro conjI impI)
  assume "list_all (\<lambda>x. \<not> is_load x) xs"
  then have "list_all (loads_only ids_numbered) xs" by (rule no_load_loads_only)
  from run_holds [OF stable_ids_numbered this initial_holds [OF stable_ids_numbered]]
  have h: "holds_throughout ids_numbered (run xs initial)" .
  then have n: "ids_numbered (state_ids (run xs initial))"
    by (simp add: holds_throughout_def)
  from numbered_objects [OF n]
  show "1 \<le> nextId (run xs initial)" "1 \<le> nextLinkId (run xs initial)"
    "list_all (\<lambda>m. \<exists>k. 1 \<le> k \<and> k < nextId (run xs initial) \<and> oid m = obj_name k
                      \<and> id_number (oid m) = Some k) (objects (run xs initial))"
    "list_all (\<lambda>l. \<exists>k. 1 \<le> k \<and> k < nextLinkId (run xs initial) \<and> lid l = link_name k
                      \<and> id_number (lid l) = Some k) (links (run xs initial))"
    by blast+
  from h show "list_all (\<lambda>snap. ids_numbered (snap_ids snap)) (history (run xs initial))"
    by (simp add: holds_throughout_def)
next
  assume "keeps_counters x"
  from apply_op_counters [OF this, of t]
  show "nextId t \<le> nextId (apply_op x t)" "nextLinkId t \<le> nextLinkId (apply_op x t)" by blast+
qed (simp_all add: resetWorld_counters)

theorem counters_exceed_present_ids_witness:
  "list_all (\<lambda>x. \<not> is_load x) [circleA, rectB, ConstraintPoint (Some ''obj-1''),
      ConstraintPoint (Some ''obj-2''), Select ''obj-1'' False]
 \<and> nextId scene_linked = 3 \<and> nextLinkId scene_linked = 2
 \<and> list_all (\<lambda>m. \<exists>k. 1 \<le> k \<and> k < 3 \<and> oid m = obj_name k \<and> id_number (oid m) = Some k)
      (objects scene_linked)
 \<and> list_all (\<lambda>l. \<exists>k. 1 \<le> k \<and> k < 2 \<and> lid l = link_name k \<and> id_number (lid l) = Some k)
      (links scene_linked)
 \<and> keeps_counters circleA
 \<and> nextId scene_two \<le> nextId (apply_op circleA scene_two)
 \<and> nextId (resetWorld scene_two) = 1"
proof -
  have a: "list_all (\<lambda>x. \<not> is_load x) [circleA, rectB, ConstraintPoint (Some ''obj-1''),
      ConstraintPoint (Some ''obj-2''), Select ''obj-1'' False]"
    by (simp add: is_load_def circleA_def rectB_def)
  have k: "keeps_counters circleA" by (simp add: keeps_counters_def circleA_def)
  from counters_exceed_present_ids [of "[circleA, rectB, ConstraintPoint (Some ''obj-1''),
      ConstraintPoint (Some ''obj-2''), Select ''obj-1'' False]" circleA scene_two] a k
  show ?thesis
    by (simp only: scene_linked_run scene_linked_counters simp_thms)
qed

text \<open>
  Claim C2 as stated fails: after one object has been created (\<open>obj-1\<close>, counter 2) an undo
  or a reset brings \<open>nextId\<close> back to 1, and the next object created after the undo is
  given the id \<open>obj-1\<close> again.
\<close>

theorem counters_reset_by_undo_counterexample:
  "nextId (run [circleA] initial) = 2
 \<and> map oid (objects (run [circleA] initial)) = [''obj-1'']
 \<and> nextId (run [circleA, Undo] initial) = 1
 \<and> nextId (run [circleA, Reset] initial) = 1
 \<and> map oid (objects (run [circleA, Undo, rectB] initial)) = [''obj-1'']"
  by (simp add: circleA_def rectB_def eval_defs undo_def restore_at_def applySnapshot_def
      resetWorld_def clearSelection_def)

section \<open>C3: inferring the object counter on load\<close>




section \<open>C4: links reference objects of the scene\<close>

text \<open>
  Claim C4, as the code has it. In every state reached from the initial state by operations
  in which every loaded document is closed (its links reference ids of its own objects),
  both endpoints of every link are ids of objects of the scene, and every snapshot of the
  history is closed as well. Deleting an object removes, in the same step, every link that
  references it. Restoring a snapshot and loading a document install the links as they are
  given: no link is dropped for a missing endpoint.
\<close>

theorem links_reference_present_objects:
  "(list_all (loads_only links_closed) xs \<longrightarrow>
      list_all (\<lambda>l. link_a l \<in> oid ` set (objects (run xs initial))
                  \<and> link_b l \<in> oid ` set (objects (run xs initial))) (links (run xs initial))
    \<and> list_all (\<lambda>snap. links_closed (snap_ids snap)) (history (run xs initial)))
 \<and> links (delete_step X s) = filter (\<lambda>l. link_a l \<noteq> X \<and> link_b l \<noteq> X) (links s)
 \<and> links (applySnapshot snap s) = s_links snap
 \<and> (d_objects data \<noteq> None \<longrightarrow>
      links (fst (loadScene data s)) = (case d_links data of None \<Rightarrow> [] | Some l \<Rightarrow> l))"
proof (intro conjI impI)
  assume "list_all (loads_only links_closed) xs"
  from run_holds [OF stable_links_closed this initial_holds [OF stable_links_closed]]
  have h: "holds_throughout links_closed (run xs initial)" .
  then show "list_all (\<lambda>l. link_a l \<in> oid ` set (objects (run xs initial))
                  \<and> link_b l \<in> oid ` set (objects (run xs initial))) (links (run xs initial))"
    by (simp add: holds_throughout_def links_closed_def state_ids_def)
  from h show "list_all (\<lambda>snap. links_closed (snap_ids snap)) (history (run xs initial))"
    by (simp add: holds_throughout_def)
next
  define s3 where "s3 = (let s1 = (case map_of (bodyMap s) X of
                 Some h \<Rightarrow> world_remove_body h s | None \<Rightarrow> s);
         s2 = s1\<lparr>bodyMap := AList.delete X (bodyMap s1)\<rparr>
     in s2\<lparr>objects := filter (\<lambda>m. oid m \<noteq> X) (objects s2)\<rparr>)"
  have s3: "links s3 = links s"
    by (simp add: s3_def Let_def world_defs split: option.splits)
  have t: "delete_step X s = removeLinksFor X s3" by (simp add: delete_step_def s3_def Let_def)
  from removeLinksFor_shape [of X s3] obtain lm wc where
    "delete_step X s = s3\<lparr>links := filter (\<lambda>l. \<not> touches X l) (links s3), linkMap := lm, world_constraints := wc\<rparr>"
    unfolding t by blast
  then show "links (delete_step X s) = filter (\<lambda>l. link_a l \<noteq> X \<and> link_b l \<noteq> X) (links s)"
    by (simp add: s3 touches_def)
next
  show "links (applySnapshot snap s) = s_links snap" by (simp add: applySnapshot_model)
next
  assume "d_objects data \<noteq> None"
  then obtain objs where "d_objects data = Some objs" by auto
  from load_counters(3) [OF this]
  show "links (fst (loadScene data s)) = (case d_links data of None \<Rightarrow> [] | Some l \<Rightarrow> l)" .
qed

theorem links_reference_present_objects_witness:
  "list_all (loads_only links_closed) [LoadScene closed_doc]
 \<and> d_objects closed_doc \<noteq> None
 \<and> map lid (links (run [LoadScene closed_doc] initial)) = [''spring'']
 \<and> list_all (\<lambda>l. link_a l \<in> oid ` set (objects (run [LoadScene closed_doc] initial))
                  \<and> link_b l \<in> oid ` set (objects (run [LoadScene closed_doc] initial)))
      (links (run [LoadScene closed_doc] initial))
 \<and> links (delete_step ''obj-1'' scene_linked) = []"
proof -
  have a: "list_all (loads_only links_closed) [LoadScene closed_doc]"
    by (simp add: loads_only_def links_closed_def doc_ids_def closed_doc_def plain_object_def)
  have b: "d_objects closed_doc \<noteq> None" by (simp add: closed_doc_def)
  have r: "run [LoadScene closed_doc] initial = fst (loadScene closed_doc initial)"
    by (simp add: run_def)
  note w = links_reference_present_objects [of "[LoadScene closed_doc]" "''obj-1''" scene_linked
      "take_snapshot initial" closed_doc]
  note v = links_reference_present_objects [of "[LoadScene closed_doc]" "''obj-1''" initial
      "take_snapshot initial" closed_doc]
  from w [THEN conjunct1] a have 1: "list_all (\<lambda>l. link_a l \<in> oid ` set (objects (run [LoadScene closed_doc] initial))
                  \<and> link_b l \<in> oid ` set (objects (run [LoadScene closed_doc] initial)))
      (links (run [LoadScene closed_doc] initial))" by blast
  from w [THEN conjunct2, THEN conjunct1] have 2: "links (delete_step ''obj-1'' scene_linked) = []"
    by (simp add: scene_linked_eval)
  from v [THEN conjunct2, THEN conjunct2, THEN conjunct2] b
  have "links (fst (loadScene closed_doc initial)) = (case d_links closed_doc of None \<Rightarrow> [] | Some l \<Rightarrow> l)"
    by blast
  then have 3: "map lid (links (run [LoadScene closed_doc] initial)) = [''spring'']"
    unfolding r by (simp add: closed_doc_def)
  from a b 1 2 3 show ?thesis by blast
qed

text \<open>
  Claim C4 as stated fails: a loaded document with a link to an object it does not contain
  leaves that link record in the scene (without a constraint).
\<close>

theorem load_keeps_dangling_link_counterexample:
  "map oid (objects (fst (loadScene dangling_doc initial))) = [''obj-1'']
 \<and> map link_b (links (fst (loadScene dangling_doc initial))) = [''obj-2'']
 \<and> linkMap (fst (loadScene dangling_doc initial)) = []"
proof -
  have o: "d_objects dangling_doc = Some [plain_object ''obj-1'']"
    by (simp add: dangling_doc_def)
  have "linkMap (fst (loadScene dangling_doc initial)) = []"
    by (simp add: dangling_doc_def plain_object_def eval_defs load_defs)
  then show ?thesis
    unfolding load_counters(3,4) [OF o] by (simp add: dangling_doc_def plain_object_def)
qed

section \<open>C5: undo and redo\<close>

text \<open>
  Claim C5, as the code has it. \<open>undo\<close> at index 0 (or below) and \<open>redo\<close> at the newest index
  return the state unchanged. When the last three snapshots of the history are \<open>S0\<close>, \<open>S1\<close>,
  \<open>S2\<close> and the index is at \<open>S2\<close>, two undos make the model (objects, links, \<open>nextId\<close>,
  \<open>nextLinkId\<close>) equal to \<open>S0\<close> and two redos after them make it equal to \<open>S2\<close>, except
  that a snapshot whose \<open>nextLinkId\<close> is 0 gets that counter inferred again from its link ids;
  the history itself is not changed by undo and redo. A commit appends the snapshot of the
  current model after the snapshots up to the current index, so a commit after the two
  undos leaves \<open>S0\<close> and the new snapshot only, and \<open>redo\<close> after a commit is a no-op.
\<close>

theorem history_undo_redo:
  "(historyIndex s \<le> 0 \<longrightarrow> undo s = s)
 \<and> (int (length (history s)) - 1 \<le> historyIndex s \<longrightarrow> redo s = s)
 \<and> (history s = pre @ [S0, S1, S2] \<and> historyIndex s = int (length pre) + 2 \<longrightarrow>
       take_snapshot (undo (undo s)) = S0\<lparr>s_nextLinkId :=
         (if s_nextLinkId S0 \<noteq> 0 then s_nextLinkId S0 else inferNextLinkId (s_links S0))\<rparr>
     \<and> take_snapshot (redo (redo (undo (undo s)))) = S2\<lparr>s_nextLinkId :=
         (if s_nextLinkId S2 \<noteq> 0 then s_nextLinkId S2 else inferNextLinkId (s_links S2))\<rparr>
     \<and> history (undo (undo s)) = history s
     \<and> historyIndex (undo (undo s)) = int (length pre)
     \<and> history (redo (redo (undo (undo s)))) = history s
     \<and> historyIndex (redo (redo (undo (undo s)))) = historyIndex s
     \<and> history (commitHistory (undo (undo s))) = pre @ [S0, take_snapshot (commitHistory (undo (undo s)))])
 \<and> (- 1 \<le> historyIndex s \<longrightarrow>
       history (commitHistory s) =
         take (nat (historyIndex s + 1)) (history s) @ [take_snapshot (commitHistory s)]
     \<and> historyIndex (commitHistory s) = int (length (history (commitHistory s))) - 1
     \<and> redo (commitHistory s) = commitHistory s)"
  by (rule history_walk)

theorem history_undo_redo_witness:
  "undo initial = initial
 \<and> redo scene_two = scene_two
 \<and> take_snapshot (undo (undo scene_two)) = \<lparr>s_objects = [], s_links = [], s_nextId = 1, s_nextLinkId = 1\<rparr>
 \<and> take_snapshot (redo (redo (undo (undo scene_two)))) = history scene_two ! 2
 \<and> length (history (commitHistory (undo (undo scene_two)))) = 2"
proof -
  note h = list3 [OF scene_two_history(2)]
  have i: "historyIndex scene_two = int (length ([] :: snapshot list)) + 2"
    by (simp add: scene_two_history)
  note w = history_undo_redo [of scene_two "[]" "history scene_two ! 0" "history scene_two ! 1"
      "history scene_two ! 2", THEN conjunct2, THEN conjunct2, THEN conjunct1, THEN mp,
      OF conjI [OF h i]]
  have nz0: "s_nextLinkId (history scene_two ! 0) \<noteq> 0" by (simp add: scene_two_history)
  have nz2: "s_nextLinkId (history scene_two ! 2) \<noteq> 0" by (simp add: scene_two_history)
  note a = w [THEN conjunct1, unfolded restored_nonzero [OF nz0]]
  note b = w [THEN conjunct2, THEN conjunct1, unfolded restored_nonzero [OF nz2]]
  note c = w [THEN conjunct2, THEN conjunct2, THEN conjunct2, THEN conjunct2, THEN conjunct2,
      THEN conjunct2]
  have c': "length (history (commitHistory (undo (undo scene_two)))) = 2"
    by (subst c) simp
  have f: "undo initial = initial"
    using history_undo_redo [of initial, THEN conjunct1] by (simp add: scene_two_history)
  have g: "redo scene_two = scene_two"
    using history_undo_redo [of scene_two, THEN conjunct2, THEN conjunct1]
    by (simp add: scene_two_history)
  show ?thesis
    using a b c' f g by (simp add: scene_two_history(3))
qed

text \<open>
  Claim C5 as stated fails for a snapshot whose \<open>nextLinkId\<close> is 0. The scene is loaded from
  a document with \<open>nextLinkId = -1\<close> and one link is added, which commits a snapshot with
  \<open>nextLinkId = 0\<close>; after two undos and two redos the counter is 8, not 0.
\<close>

theorem history_zero_counter_counterexample:
  "historyIndex scene_zero_counter = 2
 \<and> length (history scene_zero_counter) = 3
 \<and> take_snapshot scene_zero_counter = history scene_zero_counter ! 2
 \<and> s_nextLinkId (history scene_zero_counter ! 2) = 0
 \<and> nextLinkId (redo (redo (undo (undo scene_zero_counter)))) = 8
 \<and> take_snapshot (redo (redo (undo (undo scene_zero_counter)))) \<noteq> history scene_zero_counter ! 2"
proof -
  note h = list3 [OF scene_zero_counter_eval(2)]
  have i: "historyIndex scene_zero_counter = int (length ([] :: snapshot list)) + 2"
    by (simp add: scene_zero_counter_eval)
  note w = history_walk [of scene_zero_counter "[]" "history scene_zero_counter ! 0"
      "history scene_zero_counter ! 1" "history scene_zero_counter ! 2",
      THEN conjunct2, THEN conjunct2, THEN conjunct1, THEN mp, OF conjI [OF h i]]
  note b = w [THEN conjunct2, THEN conjunct1]
  have inf: "inferNextLinkId (s_links (history scene_zero_counter ! 2)) = 8"
    by (simp add: inferNextLinkId_def scene_zero_counter_eval) (simp add: load_defs)
  have d: "nextLinkId (redo (redo (undo (undo scene_zero_counter)))) = 8"
    using arg_cong [OF b, of s_nextLinkId] by (simp add: take_snapshot_def inf scene_zero_counter_eval)
  have e: "take_snapshot (redo (redo (undo (undo scene_zero_counter)))) \<noteq> history scene_zero_counter ! 2"
  proof
    assume "take_snapshot (redo (redo (undo (undo scene_zero_counter)))) = history scene_zero_counter ! 2"
    from arg_cong [OF this, of s_nextLinkId] d show False
      by (simp add: take_snapshot_def scene_zero_counter_eval)
  qed
  show ?thesis using d e by (simp add: scene_zero_counter_eval)
qed

section \<open>C6: deleting an object cascades to its links\<close>



section \<open>C7: loading a document without objects\<close>

text \<open>
  Claim C7. A document without the key \<open>objects\<close> makes the load throw \<open>Invalid scene\<close>
  before anything is assigned; the handler shows the alert "Failed to load scene: Invalid
  scene" and the whole state (objects, links, counters, history, engine objects) is the one
  before the call.
\<close>

theorem loadScene_missing_objects:
  assumes "d_objects data = None"
  shows "load_document data s = Inl InvalidScene
       \<and> loadScene data s = (s, Some ''Failed to load scene: Invalid scene'')"
  using assms by (simp add: load_document_def loadScene_def error_message_def)

theorem loadScene_missing_objects_witness:
  "d_objects no_objects_doc = None
   \<and> loadScene no_objects_doc scene_linked = (scene_linked, Some ''Failed to load scene: Invalid scene'')"
proof -
  have a: "d_objects no_objects_doc = None" by (simp add: no_objects_doc_def)
  from loadScene_missing_objects [OF a] a show ?thesis by simp
qed

section \<open>C8: link requests with unusable endpoints\<close>




section \<open>C9: saving and loading\<close>

text \<open>
  Claim C9. For a document \<open>D\<close> that has objects, let \<open>D2\<close> be the document saved right
  after loading \<open>D\<close>, and \<open>D3\<close> the document saved right after loading \<open>D2\<close> (into any
  state): \<open>D3 = D2\<close>. Loading replaces missing counters and links and gives models that
  share an id the pose of the last of them; a second load changes nothing any more.
\<close>

theorem save_load_idempotent:
  assumes "d_objects data \<noteq> None"
  shows "showSave (fst (loadScene (showSave (fst (loadScene data s))) s'))
       = showSave (fst (loadScene data s))"
proof -
  from assms obtain objs where o: "d_objects data = Some objs" by auto
  define t where "t = fst (loadScene data s)"
  define ls where "ls = (case d_links data of None \<Rightarrow> [] | Some l \<Rightarrow> l)"
  have t: "objects t = settled objs" "links t = ls"
    "nextId t = or_else (d_nextId data) (inferNextId objs)"
    "nextLinkId t = or_else (d_nextLinkId data) 1"
    unfolding t_def ls_def by (simp_all add: load_objects [OF o] load_counters [OF o])
  have o2: "d_objects (showSave t) = Some (settled objs)"
    by (simp add: showSave_def t)
  define u where "u = fst (loadScene (showSave t) s')"
  have u: "objects u = settled objs" "links u = ls"
    "nextId u = or_else (d_nextId data) (inferNextId objs)"
    "nextLinkId u = or_else (d_nextLinkId data) 1"
    unfolding u_def
    by (simp_all add: load_objects [OF o2] load_counters [OF o2] settled_idem inferNextId_settled)
      (simp_all add: showSave_def t or_else_again or_else_def split: option.splits)
  show ?thesis
    unfolding t_def [symmetric] u_def [symmetric] by (simp add: showSave_def t u)
qed

theorem save_load_idempotent_witness:
  "d_objects odd_ids_doc \<noteq> None
 \<and> showSave (fst (loadScene (showSave (fst (loadScene odd_ids_doc initial))) scene_linked))
     = showSave (fst (loadScene odd_ids_doc initial))
 \<and> d_nextId (showSave (fst (loadScene odd_ids_doc initial))) = Some 3
 \<and> d_nextLinkId (showSave (fst (loadScene odd_ids_doc initial))) = Some 1"
proof -
  have a: "d_objects odd_ids_doc \<noteq> None" by (simp add: odd_ids_doc_def)
  have o: "d_objects odd_ids_doc = Some [plain_object ''box-2-9'', plain_object ''crate7'']"
    by (simp add: odd_ids_doc_def)
  have n: "nextId (fst (loadScene odd_ids_doc initial)) = 3"
    unfolding load_counters(1) [OF o]
    by (simp add: odd_ids_doc_def plain_object_def load_defs)
  have l: "nextLinkId (fst (loadScene odd_ids_doc initial)) = 1"
    unfolding load_counters(2) [OF o] by (simp add: odd_ids_doc_def or_else_def)
  from save_load_idempotent [OF a, of initial scene_linked] a n l show ?thesis
    by (simp add: showSave_def)
qed

section \<open>C10: the options of a new link\<close>

text \<open>
  Claim C10. When both endpoint ids have live bodies, \<open>createLink\<close> appends one link record
  with stiffness 0.04, damping 0.02 and rest length \<open>min 220 d\<close>, where \<open>d\<close> is the Euclidean
  distance between the positions of the two bodies at that moment, and creates the
  constraint with the same options; when \<open>d\<close> exceeds 220 the rest length is shorter than
  the separation. In every reachable state every object of the scene has a live body, so
  this covers every pair of existing objects.
\<close>

theorem createLink_options:
  assumes "map_of (bodyMap s) aId = Some hA" and "map_of (bodyMap s) bId = Some hB"
    and "heap_bodies s hA = Some bodyA" and "heap_bodies s hB = Some bodyB"
  shows "(let d = sqrt ((fst (b_position bodyB) - fst (b_position bodyA))\<^sup>2
                     + (snd (b_position bodyB) - snd (b_position bodyA))\<^sup>2);
             opts = \<lparr>stiffness = 0.04, damping = 0.02, rest_length = min 220 d\<rparr>;
             s' = createLink aId bId s
         in links s' = links s @ [\<lparr>lid = link_name (nextLinkId s), link_a = aId, link_b = bId,
                                   options = opts\<rparr>]
          \<and> map_of (linkMap s') (link_name (nextLinkId s)) = Some (next_handle s)
          \<and> heap_constraints s' (next_handle s) = Some \<lparr>c_bodyA = hA, c_bodyB = hB, c_options = opts\<rparr>
          \<and> world_constraints s' = world_constraints s @ [next_handle s]
          \<and> (220 < d \<longrightarrow> rest_length opts < d))
     \<and> (A \<in> set (objects (run xs initial)) \<and> B \<in> set (objects (run xs initial)) \<longrightarrow>
          (\<exists>h1 h2 b1 b2.
              map_of (bodyMap (run xs initial)) (oid A) = Some h1
            \<and> map_of (bodyMap (run xs initial)) (oid B) = Some h2
            \<and> heap_bodies (run xs initial) h1 = Some b1
            \<and> heap_bodies (run xs initial) h2 = Some b2))"
proof
  show "A \<in> set (objects (run xs initial)) \<and> B \<in> set (objects (run xs initial)) \<longrightarrow>
          (\<exists>h1 h2 b1 b2.
              map_of (bodyMap (run xs initial)) (oid A) = Some h1
            \<and> map_of (bodyMap (run xs initial)) (oid B) = Some h2
            \<and> heap_bodies (run xs initial) h1 = Some b1
            \<and> heap_bodies (run xs initial) h2 = Some b2)"
    using reachable_bodies [of A xs] reachable_bodies [of B xs] by blast
qed (rule createLink_effect [OF assms])

theorem createLink_options_witness:
  "map_of (bodyMap scene_two) ''obj-1'' = Some 0
 \<and> map_of (bodyMap scene_two) ''obj-2'' = Some 1
 \<and> links (createLink ''obj-1'' ''obj-2'' scene_two) =
     [\<lparr>lid = ''link-1'', link_a = ''obj-1'', link_b = ''obj-2'',
       options = \<lparr>stiffness = 0.04, damping = 0.02, rest_length = 5\<rparr>\<rparr>]"
  using createLink_options [of scene_two "''obj-1''" 0 "''obj-2''" "Suc 0", OF _ _ scene_two_eval(2) scene_two_eval(3),
      THEN conjunct1]
  by (simp add: scene_two_eval Let_def buildBody_def sqrt25 link_name_def dec_int_def dec_nat.simps digit_char_def)

end
